theory Spec2Isabelle
  imports Main
begin

section \<open>Package paladin: data model\<close>

text \<open>
  The package protects a resource against asynchronous interruption. \<open>Run\<close>
  (\<^verbatim>\<open>paladin.go\<close>, lines 102 to 151) is executed by the calling goroutine, the coordinator,
  and starts two more goroutines: one that waits for an operating system signal (lines
  113 to 118) and one that runs the user's function (lines 131 to 136). The three share
  the mutex \<open>guard\<close> and the unbuffered channel \<open>done\<close>. The embedding is an interleaving
  semantics: every statement of \<open>Run\<close> and of the two goroutines is one atomic step, and
  a schedule, a list of labels, says which goroutine moves next or which signal the
  operating system delivers next. Nothing is assumed of the schedule: a goroutine that
  is never chosen again is one that hangs, or whose process has been stopped.
\<close>

text \<open>\<open>os.Signal\<close>: the values the operating system can deliver.\<close>

datatype os_Signal = os_Interrupt | os_Kill | syscall_Signal nat

text \<open>
  A Go \<open>error\<close> value: what \<open>errors.New\<close> builds, or a value of any other error type
  (told apart by a tag), each with the text its \<open>Error()\<close> method returns.
\<close>

datatype error = errorString string | otherError nat string

fun Error :: "error \<Rightarrow> string" where
  "Error (errorString text) = text"
| "Error (otherError tag text) = text"

definition errors_New :: "string \<Rightarrow> error" where
  "errors_New text = errorString text"

text \<open>\<open>type event struct { os bool; s os.Signal }\<close>; a nil \<open>s\<close> is \<open>None\<close>.\<close>

record event =
  e_os :: bool
  e_s :: "os_Signal option"

text \<open>The goroutines of one \<open>Run\<close>.\<close>

datatype goroutine = Coordinator | Listener | Runner

text \<open>
  \<open>type Paladin struct { Signal os.Signal; guard sync.Mutex }\<close>. A \<open>sync.Mutex\<close> is
  locked or unlocked and has no owner: \<open>Unlock\<close> may be called by any goroutine. The
  model records with the locked state the goroutine whose \<open>Lock\<close> succeeded; \<open>Leave\<close>
  never reads that name.
\<close>

record paladin =
  Signal :: "os_Signal option"
  guard :: "goroutine option"

text \<open>
  \<open>Enter\<close> is \<open>p.guard.Lock()\<close>: the result \<open>None\<close> says that the caller stays blocked.
  \<open>Leave\<close> is \<open>p.guard.Unlock()\<close>: the result \<open>None\<close> is the fatal error of unlocking
  an unlocked mutex, which stops the process.
\<close>

definition Enter :: "goroutine \<Rightarrow> paladin \<Rightarrow> paladin option" where
  "Enter g p = (if guard p = None then Some (p\<lparr>guard := Some g\<rparr>) else None)"

definition Leave :: "paladin \<Rightarrow> paladin option" where
  "Leave p = (if guard p = None then None else Some (p\<lparr>guard := None\<rparr>))"

text \<open>\<open>New\<close>: a fresh Paladin with \<open>Signal = nil\<close>, on which \<open>Enter\<close> has been called.\<close>

definition New :: paladin where
  "New = (let p = \<lparr>Signal = None, guard = None\<rparr> in p\<lparr>guard := Some Coordinator\<rparr>)"

text \<open>
  The user's function \<open>run\<close> is arbitrary code. What matters to the package is the
  sequence of calls it makes on the Paladin and the points where it touches the
  resource it was given; an execution of \<open>run(c)\<close> is the list of these.
\<close>

datatype act = Call_Enter | Call_Leave | Use_Resource

text \<open>
  The three arguments of \<open>Run\<close>. \<open>openr\<close> and \<open>closr\<close> are taken as atomic and as not
  calling the Paladin themselves; the result of \<open>openr()\<close> is the pair \<open>(c, err)\<close>, with
  \<open>None\<close> for a nil error. The type \<open>'h\<close> of resources is arbitrary.
\<close>

record 'h args =
  openr :: "unit \<Rightarrow> 'h \<times> error option"
  closr :: "'h \<Rightarrow> error option"
  run :: "'h \<Rightarrow> act list"

text \<open>
  What an execution does, in the order in which it happens: the opener's return, every
  \<open>Unlock\<close> and \<open>Lock\<close> of the guard with the goroutine that made it, the start of \<open>run(c)\<close>,
  the receive of line 139, the assignment of line 145, the closer's return, and every
  use the runner makes of the resource.
\<close>

datatype 'h obs =
    Opened 'h "error option"
  | Unlocked goroutine
  | Started 'h
  | Received event
  | Locked goroutine
  | Recorded "os_Signal option"
  | Closed 'h "error option"
  | Used 'h

text \<open>
  Where the coordinator stands in \<open>Run\<close>, by what it executes next: lines 106 to 110
  (\<open>At_Notify\<close>), the \<open>go\<close> statement of line 113 (\<open>At_Listen\<close>), lines 121 to 125
  (\<open>At_Open\<close>), line 128 (\<open>At_Leave\<close>), the \<open>go\<close> statement of line 131 (\<open>At_Go\<close>), line 139
  (\<open>At_Wait\<close>), line 142 (\<open>At_Enter\<close>), lines 144 to 146 (\<open>At_Record\<close>), lines 149 and 150
  (\<open>At_Close\<close>); \<open>Returned\<close> after either \<open>return\<close>.
\<close>

datatype cpc =
    At_Notify
  | At_Listen
  | At_Open
  | At_Leave
  | At_Go
  | At_Wait
  | At_Enter
  | At_Record
  | At_Close
  | Returned

text \<open>
  The goroutine of lines 113 to 118: not started, at \<open><-sig\<close>, at \<open>done <- e\<close> with its
  event, or finished.
\<close>

datatype lpc = L_None | L_Recv | L_Send event | L_Exit

text \<open>
  The goroutine of lines 131 to 136: \<open>R_Run c as\<close> is inside \<open>run(c)\<close> with the calls
  \<open>as\<close> still to make; with \<open>as = []\<close> it stands at \<open>done <- e\<close>.
\<close>

datatype 'h rpc = R_None | R_Run 'h "act list" | R_Exit

text \<open>
  The state of one call of \<open>Run\<close>: the Paladin, the coordinator's position and its
  variables \<open>c\<close>, \<open>e\<close> and \<open>err\<close> (\<open>None\<close> stands for not yet assigned, and for a nil
  \<open>err\<close>), the two goroutines, the signals \<open>signal.Notify\<close> relays and the content of the
  channel \<open>sig\<close>, whether the process has stopped on a fatal error, and the trace.
\<close>

record 'h state =
  pal :: paladin
  pc :: cpc
  var_c :: "'h option"
  var_e :: "event option"
  var_err :: "error option"
  listener :: lpc
  runner :: "'h rpc"
  notified :: "os_Signal list"
  sigch :: "os_Signal list"
  fatal :: bool
  trace :: "'h obs list"

section \<open>The steps\<close>

text \<open>
  \<open>done\<close> is unbuffered: a send completes only together with the receive of line 139.
  The sender's step hands its event to a coordinator that waits there, and is blocked
  otherwise.
\<close>

definition send_done :: "event \<Rightarrow> 'h state \<Rightarrow> 'h state option" where
  "send_done ev st =
     (if pc st = At_Wait
      then Some (st\<lparr>var_e := Some ev, pc := At_Enter, trace := trace st @ [Received ev]\<rparr>)
      else None)"

text \<open>
  One statement of \<open>Run\<close>, with \<open>None\<close> where the coordinator is blocked. Lines 106 to
  110 make the channels and subscribe \<open>sig\<close> to \<open>os.Interrupt\<close>. Lines 121 to 125 call the
  opener and, on an error, return \<open>errors.New(fmt.Sprintf("Could not open: %v", err))\<close>,
  where \<open>%v\<close> prints an error by its \<open>Error()\<close> text. Line 128 unlocks the guard and
  line 142 locks it again; lines 144 to 146 assign \<open>p.Signal\<close> if the event is a signal;
  lines 149 and 150 return what the closer returns. At line 139 the coordinator moves
  only with a sender, in \<open>send_done\<close>.
\<close>

definition Run_step :: "'h args \<Rightarrow> 'h state \<Rightarrow> 'h state option" where
  "Run_step a st =
     (case pc st of
        At_Notify \<Rightarrow> Some (st\<lparr>notified := [os_Interrupt], sigch := [], pc := At_Listen\<rparr>)
      | At_Listen \<Rightarrow> Some (st\<lparr>listener := L_Recv, pc := At_Open\<rparr>)
      | At_Open \<Rightarrow>
          (case openr a () of
             (h, Some x) \<Rightarrow>
               Some (st\<lparr>var_c := Some h,
                        var_err := Some (errors_New (''Could not open: '' @ Error x)),
                        pc := Returned,
                        trace := trace st @ [Opened h (Some x)]\<rparr>)
           | (h, None) \<Rightarrow>
               Some (st\<lparr>var_c := Some h, var_err := None, pc := At_Leave,
                        trace := trace st @ [Opened h None]\<rparr>))
      | At_Leave \<Rightarrow>
          (case Leave (pal st) of
             None \<Rightarrow> Some (st\<lparr>fatal := True\<rparr>)
           | Some p \<Rightarrow>
               Some (st\<lparr>pal := p, pc := At_Go, trace := trace st @ [Unlocked Coordinator]\<rparr>))
      | At_Go \<Rightarrow>
          (case var_c st of
             None \<Rightarrow> None
           | Some h \<Rightarrow>
               Some (st\<lparr>runner := R_Run h (run a h), pc := At_Wait,
                        trace := trace st @ [Started h]\<rparr>))
      | At_Wait \<Rightarrow> None
      | At_Enter \<Rightarrow>
          (case Enter Coordinator (pal st) of
             None \<Rightarrow> None
           | Some p \<Rightarrow>
               Some (st\<lparr>pal := p, pc := At_Record, trace := trace st @ [Locked Coordinator]\<rparr>))
      | At_Record \<Rightarrow>
          (case var_e st of
             None \<Rightarrow> None
           | Some ev \<Rightarrow>
               (if e_os ev
                then Some (st\<lparr>pal := (pal st)\<lparr>Signal := e_s ev\<rparr>, pc := At_Close,
                              trace := trace st @ [Recorded (e_s ev)]\<rparr>)
                else Some (st\<lparr>pc := At_Close\<rparr>)))
      | At_Close \<Rightarrow>
          (case var_c st of
             None \<Rightarrow> None
           | Some h \<Rightarrow>
               Some (st\<lparr>var_err := closr a h, pc := Returned,
                        trace := trace st @ [Closed h (closr a h)]\<rparr>))
      | Returned \<Rightarrow> None)"

text \<open>
  Lines 114 to 117: \<open>e.os = true\<close>, \<open>e.s = <-sig\<close>, which blocks on an empty channel,
  and \<open>done <- e\<close>.
\<close>

definition listener_step :: "'h state \<Rightarrow> 'h state option" where
  "listener_step st =
     (case listener st of
        L_None \<Rightarrow> None
      | L_Recv \<Rightarrow>
          (case sigch st of
             [] \<Rightarrow> None
           | x # xs \<Rightarrow>
               Some (st\<lparr>sigch := xs, listener := L_Send \<lparr>e_os = True, e_s = Some x\<rparr>\<rparr>))
      | L_Send ev \<Rightarrow>
          (case send_done ev st of
             None \<Rightarrow> None
           | Some st' \<Rightarrow> Some (st'\<lparr>listener := L_Exit\<rparr>))
      | L_Exit \<Rightarrow> None)"

text \<open>
  Lines 132 to 135: the calls of \<open>run(c)\<close> one by one, then \<open>e.os = false\<close> (the zero
  event has a nil \<open>s\<close>) and \<open>done <- e\<close>.
\<close>

definition runner_step :: "'h state \<Rightarrow> 'h state option" where
  "runner_step st =
     (case runner st of
        R_None \<Rightarrow> None
      | R_Run h [] \<Rightarrow>
          (case send_done \<lparr>e_os = False, e_s = None\<rparr> st of
             None \<Rightarrow> None
           | Some st' \<Rightarrow> Some (st'\<lparr>runner := R_Exit\<rparr>))
      | R_Run h (Call_Enter # as) \<Rightarrow>
          (case Enter Runner (pal st) of
             None \<Rightarrow> None
           | Some p \<Rightarrow>
               Some (st\<lparr>pal := p, runner := R_Run h as, trace := trace st @ [Locked Runner]\<rparr>))
      | R_Run h (Call_Leave # as) \<Rightarrow>
          (case Leave (pal st) of
             None \<Rightarrow> Some (st\<lparr>fatal := True\<rparr>)
           | Some p \<Rightarrow>
               Some (st\<lparr>pal := p, runner := R_Run h as, trace := trace st @ [Unlocked Runner]\<rparr>))
      | R_Run h (Use_Resource # as) \<Rightarrow>
          Some (st\<lparr>runner := R_Run h as, trace := trace st @ [Used h]\<rparr>)
      | R_Exit \<Rightarrow> None)"

text \<open>
  \<open>signal.Notify(sig, os.Interrupt)\<close> relays the listed signals into \<open>sig\<close> and never
  blocks: a signal that finds the 1024 places taken is dropped. A signal that is not
  relayed is left to its default action, which is not the package's; where that action
  stops the process the execution ends there, and its states are states of a shorter
  schedule.
\<close>

definition deliver :: "os_Signal \<Rightarrow> 'h state \<Rightarrow> 'h state option" where
  "deliver x st =
     (if x \<in> set (notified st) \<and> length (sigch st) < 1024
      then Some (st\<lparr>sigch := sigch st @ [x]\<rparr>)
      else None)"

datatype label = Go goroutine | Deliver os_Signal

fun step :: "'h args \<Rightarrow> label \<Rightarrow> 'h state \<Rightarrow> 'h state option" where
  "step a (Go Coordinator) st = (if fatal st then None else Run_step a st)"
| "step a (Go Listener) st = (if fatal st then None else listener_step st)"
| "step a (Go Runner) st = (if fatal st then None else runner_step st)"
| "step a (Deliver x) st = (if fatal st then None else deliver x st)"

text \<open>
  A process that has stopped on a fatal error makes no step. A label whose step is
  blocked leaves the state as it is.
\<close>

definition next_state :: "'h args \<Rightarrow> label \<Rightarrow> 'h state \<Rightarrow> 'h state" where
  "next_state a l st = (case step a l st of None \<Rightarrow> st | Some st' \<Rightarrow> st')"

fun exec :: "'h args \<Rightarrow> label list \<Rightarrow> 'h state \<Rightarrow> 'h state" where
  "exec a [] st = st"
| "exec a (l # ls) st = exec a ls (next_state a l st)"

text \<open>The state in which \<open>p.Run(openr, closr, run)\<close> is entered (line 103: \<open>err = nil\<close>).\<close>

definition Run_start :: "paladin \<Rightarrow> 'h state" where
  "Run_start p =
     \<lparr>pal = p, pc = At_Notify, var_c = None, var_e = None, var_err = None,
      listener = L_None, runner = R_None, notified = [], sigch = [], fatal = False,
      trace = []\<rparr>"

text \<open>
  The call \<open>p.Run(openr, closr, run)\<close> under a schedule: the returned error together
  with the Paladin as it is when the schedule ends, or \<open>None\<close> if the call has not
  returned by then.
\<close>

definition Run :: "paladin \<Rightarrow> 'h args \<Rightarrow> label list \<Rightarrow> (paladin \<times> error option) option" where
  "Run p a sched =
     (let st = exec a sched (Run_start p)
      in if pc st = Returned then Some (pal st, var_err st) else None)"

text \<open>
  Calls of \<open>Run\<close> one after the other on the same Paladin, each with its arguments and
  its schedule; a call that does not return is the last one. Every call makes its own
  channels, so the goroutines an earlier call has left behind can reach a later call
  through the guard only.
\<close>

fun Runs :: "paladin \<Rightarrow> ('h args \<times> label list) list \<Rightarrow> paladin" where
  "Runs p [] = p"
| "Runs p ((a, sched) # rest) =
     (case Run p a sched of
        None \<Rightarrow> pal (exec a sched (Run_start p))
      | Some (p', r) \<Rightarrow> Runs p' rest)"

section \<open>Vocabulary of the properties\<close>

text \<open>The coordinator's part of a trace: everything but what the runner does.\<close>

fun is_runner_obs :: "'h obs \<Rightarrow> bool" where
  "is_runner_obs (Locked g) = (g = Runner)"
| "is_runner_obs (Unlocked g) = (g = Runner)"
| "is_runner_obs (Used h) = True"
| "is_runner_obs x = False"

definition coord_trace :: "'h obs list \<Rightarrow> 'h obs list" where
  "coord_trace xs = filter (\<lambda>x. \<not> is_runner_obs x) xs"

fun is_Closed :: "'h obs \<Rightarrow> bool" where
  "is_Closed (Closed h r) = True"
| "is_Closed x = False"

fun is_Started :: "'h obs \<Rightarrow> bool" where
  "is_Started (Started h) = True"
| "is_Started x = False"

fun is_Received :: "'h obs \<Rightarrow> bool" where
  "is_Received (Received ev) = True"
| "is_Received x = False"

fun is_Recorded :: "'h obs \<Rightarrow> bool" where
  "is_Recorded (Recorded sg) = True"
| "is_Recorded x = False"

text \<open>
  The number of protected regions the runner has entered and not left: its \<open>Enter\<close>
  calls that returned, less its \<open>Leave\<close> calls.
\<close>

definition open_regions :: "'h obs list \<Rightarrow> int" where
  "open_regions xs =
     int (length (filter (\<lambda>x. x = Locked Runner) xs)) - int (length (filter (\<lambda>x. x = Unlocked Runner) xs))"

text \<open>
  Two disciplines of the user's function, both relative to whether it holds the guard
  when it starts on the list. \<open>respects_guard\<close>: it calls \<open>Leave\<close> only while it holds
  the guard. \<open>bracketed\<close>: moreover it calls \<open>Enter\<close> only while it does not hold the guard,
  and does not end holding it.
\<close>

fun respects_guard :: "bool \<Rightarrow> act list \<Rightarrow> bool" where
  "respects_guard held [] = True"
| "respects_guard held (Call_Enter # as) = respects_guard True as"
| "respects_guard held (Call_Leave # as) = (held \<and> respects_guard False as)"
| "respects_guard held (Use_Resource # as) = respects_guard held as"

fun bracketed :: "bool \<Rightarrow> act list \<Rightarrow> bool" where
  "bracketed held [] = (\<not> held)"
| "bracketed held (Call_Enter # as) = (\<not> held \<and> bracketed True as)"
| "bracketed held (Call_Leave # as) = (held \<and> bracketed False as)"
| "bracketed held (Use_Resource # as) = bracketed held as"

text \<open>
  Renaming the resources by \<open>f\<close>: in a state, and between two triples of arguments
  that behave alike on a resource and on its renaming.
\<close>

definition map_state :: "('a \<Rightarrow> 'b) \<Rightarrow> 'a state \<Rightarrow> 'b state" where
  "map_state f st =
     \<lparr>pal = pal st, pc = pc st, var_c = map_option f (var_c st), var_e = var_e st,
      var_err = var_err st, listener = listener st, runner = map_rpc f (runner st),
      notified = notified st, sigch = sigch st, fatal = fatal st,
      trace = map (map_obs f) (trace st)\<rparr>"

definition same_callbacks :: "('a \<Rightarrow> 'b) \<Rightarrow> 'a args \<Rightarrow> 'b args \<Rightarrow> bool" where
  "same_callbacks f a b \<longleftrightarrow>
     openr b () = (f (fst (openr a ())), snd (openr a ())) \<and>
     (\<forall>h. closr b (f h) = closr a h) \<and> (\<forall>h. run b (f h) = run a h)"

text \<open>What the opener returns, and what \<open>Run\<close> returns in the end.\<close>

definition handle :: "'h args \<Rightarrow> 'h" where
  "handle a = fst (openr a ())"

definition open_failed :: "'h args \<Rightarrow> bool" where
  "open_failed a = (snd (openr a ()) \<noteq> None)"

definition result :: "'h args \<Rightarrow> error option" where
  "result a =
     (case snd (openr a ()) of
        Some x \<Rightarrow> Some (errors_New (''Could not open: '' @ Error x))
      | None \<Rightarrow> closr a (handle a))"

text \<open>
  The phases of \<open>Run\<close>, as sets of positions; the argument \<open>f\<close> says whether the
  opener failed, which tells the two returns apart.
\<close>

fun after_open :: "cpc \<Rightarrow> bool" where
  "after_open At_Notify = False"
| "after_open At_Listen = False"
| "after_open At_Open = False"
| "after_open x = True"

fun launched :: "bool \<Rightarrow> cpc \<Rightarrow> bool" where
  "launched f At_Wait = True"
| "launched f At_Enter = True"
| "launched f At_Record = True"
| "launched f At_Close = True"
| "launched f Returned = (\<not> f)"
| "launched f x = False"

fun got_event :: "bool \<Rightarrow> cpc \<Rightarrow> bool" where
  "got_event f At_Enter = True"
| "got_event f At_Record = True"
| "got_event f At_Close = True"
| "got_event f Returned = (\<not> f)"
| "got_event f x = False"

fun recorded :: "cpc \<Rightarrow> bool" where
  "recorded At_Close = True"
| "recorded Returned = True"
| "recorded x = False"

fun untouched :: "bool \<Rightarrow> cpc \<Rightarrow> bool" where
  "untouched f At_Notify = True"
| "untouched f At_Listen = True"
| "untouched f At_Open = True"
| "untouched f Returned = f"
| "untouched f x = False"

fun holds_guard :: "cpc \<Rightarrow> bool" where
  "holds_guard At_Go = False"
| "holds_guard At_Wait = False"
| "holds_guard At_Enter = False"
| "holds_guard x = True"

fun steps_to_fail :: "cpc \<Rightarrow> nat" where
  "steps_to_fail At_Notify = 3"
| "steps_to_fail At_Listen = 2"
| "steps_to_fail At_Open = 1"
| "steps_to_fail x = 0"

text \<open>The two events that are ever sent on \<open>done\<close>.\<close>

definition interrupted :: event where
  "interrupted = \<lparr>e_os = True, e_s = Some os_Interrupt\<rparr>"

definition finished :: event where
  "finished = \<lparr>e_os = False, e_s = None\<rparr>"

definition record_of :: "event option \<Rightarrow> 'h obs list" where
  "record_of evo = (case evo of None \<Rightarrow> [] | Some ev \<Rightarrow> if e_os ev then [Recorded (e_s ev)] else [])"

definition receive_of :: "event option \<Rightarrow> 'h obs list" where
  "receive_of evo = (case evo of None \<Rightarrow> [] | Some ev \<Rightarrow> [Received ev])"

definition signal_of :: "paladin \<Rightarrow> event option \<Rightarrow> os_Signal option" where
  "signal_of p evo = (case evo of None \<Rightarrow> Signal p | Some ev \<Rightarrow> if e_os ev then e_s ev else Signal p)"

text \<open>The coordinator's part of the trace, position by position.\<close>

fun expected_trace :: "'h args \<Rightarrow> event option \<Rightarrow> cpc \<Rightarrow> 'h obs list" where
  "expected_trace a evo At_Notify = []"
| "expected_trace a evo At_Listen = []"
| "expected_trace a evo At_Open = []"
| "expected_trace a evo At_Leave = [Opened (handle a) None]"
| "expected_trace a evo At_Go = [Opened (handle a) None, Unlocked Coordinator]"
| "expected_trace a evo At_Wait = [Opened (handle a) None, Unlocked Coordinator, Started (handle a)]"
| "expected_trace a evo At_Enter =
     [Opened (handle a) None, Unlocked Coordinator, Started (handle a)] @ receive_of evo"
| "expected_trace a evo At_Record =
     [Opened (handle a) None, Unlocked Coordinator, Started (handle a)] @ receive_of evo
       @ [Locked Coordinator]"
| "expected_trace a evo At_Close =
     [Opened (handle a) None, Unlocked Coordinator, Started (handle a)] @ receive_of evo
       @ [Locked Coordinator] @ record_of evo"
| "expected_trace a evo Returned =
     (if open_failed a then [Opened (handle a) (snd (openr a ()))]
      else [Opened (handle a) None, Unlocked Coordinator, Started (handle a)] @ receive_of evo
             @ [Locked Coordinator] @ record_of evo @ [Closed (handle a) (closr a (handle a))])"

text \<open>
  What holds in every state of every execution of \<open>Run\<close> entered with the Paladin \<open>p\<close>,
  whatever the user's function does.
\<close>

definition run_inv :: "'h args \<Rightarrow> paladin \<Rightarrow> 'h state \<Rightarrow> bool" where
  "run_inv a p st \<longleftrightarrow>
     coord_trace (trace st) = expected_trace a (var_e st) (pc st) \<and>
     var_c st = (if after_open (pc st) then Some (handle a) else None) \<and>
     var_err st = (if pc st = Returned then result a else None) \<and>
     (after_open (pc st) \<and> pc st \<noteq> Returned \<longrightarrow> \<not> open_failed a) \<and>
     Signal (pal st) = (if recorded (pc st) then signal_of p (var_e st) else Signal p) \<and>
     (runner st = R_None) = (\<not> launched (open_failed a) (pc st)) \<and>
     (\<forall>h as. runner st = R_Run h as \<longrightarrow> h = handle a) \<and>
     (listener st = L_None) = (pc st = At_Notify \<or> pc st = At_Listen) \<and>
     var_e st =
       (if listener st = L_Exit then Some interrupted
        else if runner st = R_Exit then Some finished else None) \<and>
     (listener st = L_Exit \<longrightarrow> runner st \<noteq> R_Exit) \<and>
     (listener st = L_Exit \<or> runner st = R_Exit) = got_event (open_failed a) (pc st) \<and>
     (\<forall>ev. listener st = L_Send ev \<longrightarrow> ev = interrupted) \<and>
     list_all (\<lambda>x. x = os_Interrupt) (sigch st) \<and>
     notified st = (if pc st = At_Notify then [] else [os_Interrupt]) \<and>
     (untouched (open_failed a) (pc st) \<longrightarrow> pal st = p \<and> \<not> fatal st) \<and>
     list_all (\<lambda>x. \<forall>h. x = Used h \<longrightarrow> h = handle a) (trace st)"

text \<open>
  What holds of the guard in every state if the user's function respects it, and what
  holds in addition if its regions are bracketed.
\<close>

definition guard_inv :: "'h state \<Rightarrow> bool" where
  "guard_inv st \<longleftrightarrow>
     \<not> fatal st \<and>
     (guard (pal st) = Some Coordinator) = holds_guard (pc st) \<and>
     guard (pal st) \<noteq> Some Listener \<and>
     (pc st = At_Go \<longrightarrow> guard (pal st) = None) \<and>
     (runner st = R_None \<longrightarrow> guard (pal st) \<noteq> Some Runner) \<and>
     (\<forall>h as. runner st = R_Run h as \<longrightarrow> respects_guard (guard (pal st) = Some Runner) as) \<and>
     open_regions (trace st) = (if guard (pal st) = Some Runner then 1 else 0)"

definition close_inv :: "'h state \<Rightarrow> bool" where
  "close_inv st \<longleftrightarrow>
     (\<forall>pre h r post. trace st = pre @ Closed h r # post \<longrightarrow> open_regions pre = 0)"

definition bracket_inv :: "'h state \<Rightarrow> bool" where
  "bracket_inv st \<longleftrightarrow>
     (\<forall>h as. runner st = R_Run h as \<longrightarrow> bracketed (guard (pal st) = Some Runner) as) \<and>
     (runner st = R_Exit \<longrightarrow> guard (pal st) \<noteq> Some Runner)"

definition all_inv :: "'h args \<Rightarrow> paladin \<Rightarrow> 'h state \<Rightarrow> bool" where
  "all_inv a p st \<longleftrightarrow> run_inv a p st \<and> guard_inv st \<and> bracket_inv st"

text \<open>A state from which some schedule leads to the return of \<open>Run\<close>.\<close>

definition completes :: "'h args \<Rightarrow> 'h state \<Rightarrow> bool" where
  "completes a st \<longleftrightarrow> (\<exists>more. pc (exec a more st) = Returned)"

text \<open>
  Examples. A resource \<open>7\<close> and a user's function with one protected region; an opener
  that fails; a closer that fails. Three schedules: the runner finishes undisturbed;
  an interruption arrives while the runner is inside its region, and two more after
  it; signals other than \<open>os.Interrupt\<close> arrive as well.
\<close>

definition demo_args :: "nat args" where
  "demo_args =
     \<lparr>openr = (\<lambda>_. (7, None)), closr = (\<lambda>h. None),
      run = (\<lambda>h. [Call_Enter, Use_Resource, Call_Leave])\<rparr>"

definition failing_args :: "nat args" where
  "failing_args =
     \<lparr>openr = (\<lambda>_. (0, Some (otherError 2 ''no such file''))), closr = (\<lambda>h. None),
      run = (\<lambda>h. [Use_Resource])\<rparr>"

definition failing_closer :: "nat args" where
  "failing_closer =
     \<lparr>openr = (\<lambda>_. (7, None)), closr = (\<lambda>h. Some (otherError 5 ''disk full'')),
      run = (\<lambda>h. [Call_Enter, Use_Resource, Call_Leave])\<rparr>"

definition demo_finished :: "label list" where
  "demo_finished =
     [Go Coordinator, Go Coordinator, Go Coordinator, Go Coordinator, Go Coordinator,
      Go Runner, Go Runner, Go Runner, Go Runner, Go Coordinator, Go Coordinator, Go Coordinator]"

definition demo_interrupted :: "label list" where
  "demo_interrupted =
     [Go Coordinator, Go Coordinator, Deliver os_Interrupt, Go Coordinator, Go Coordinator,
      Go Coordinator, Go Runner, Deliver os_Interrupt, Go Listener, Go Listener,
      Deliver os_Interrupt, Go Coordinator, Go Runner, Go Runner, Go Coordinator, Go Coordinator,
      Go Coordinator]"

definition demo_signals :: "label list" where
  "demo_signals =
     [Go Coordinator, Deliver (syscall_Signal 28), Go Coordinator, Go Listener,
      Go Coordinator, Go Coordinator, Go Coordinator, Deliver (syscall_Signal 17),
      Deliver os_Interrupt, Go Listener, Go Runner, Go Listener, Go Coordinator, Go Runner,
      Go Runner, Go Coordinator, Go Coordinator, Go Coordinator]"

section \<open>Invariants and their consequences\<close>

subsection \<open>Rules for evaluation\<close>

lemma event_simps [simp]:
  "e_os interrupted" "e_s interrupted = Some os_Interrupt"
  "\<not> e_os finished" "e_s finished = None"
  "interrupted \<noteq> finished" "finished \<noteq> interrupted"
  by (auto simp: interrupted_def finished_def)

lemma event_fold [simp]:
  "\<lparr>e_os = True, e_s = Some os_Interrupt\<rparr> = interrupted"
  "\<lparr>e_os = False, e_s = None\<rparr> = finished"
  by (simp_all add: interrupted_def finished_def)

lemma receive_of_simps [simp]:
  "receive_of None = []" "receive_of (Some ev) = [Received ev]"
  by (simp_all add: receive_of_def)

lemma record_of_simps [simp]:
  "record_of None = []" "record_of (Some interrupted) = [Recorded (Some os_Interrupt)]"
  "record_of (Some finished) = []"
  by (simp_all add: record_of_def)

lemma signal_of_simps [simp]:
  "signal_of p None = Signal p" "signal_of p (Some interrupted) = Some os_Interrupt"
  "signal_of p (Some finished) = Signal p"
  by (simp_all add: signal_of_def)

lemma open_regions_simps [simp]:
  "open_regions [] = 0"
  "open_regions (xs @ [Locked Runner]) = open_regions xs + 1"
  "open_regions (xs @ [Unlocked Runner]) = open_regions xs - 1"
  "x \<noteq> Locked Runner \<Longrightarrow> x \<noteq> Unlocked Runner \<Longrightarrow> open_regions (xs @ [x]) = open_regions xs"
  by (simp_all add: open_regions_def)

lemmas step_defs = next_state_def Run_step_def listener_step_def runner_step_def
  send_done_def deliver_def Enter_def Leave_def Run_start_def New_def

subsection \<open>The invariant of \<open>Run\<close>\<close>

text \<open>
  Each of the four kinds of step keeps \<open>run_inv\<close>, so it holds in every state an
  execution reaches from the entry of \<open>Run\<close>. Nothing is asked of the user's function.
\<close>

lemmas run_inv_unfold = run_inv_def coord_trace_def handle_def open_failed_def
        result_def Enter_def Leave_def

lemma run_inv_coordinator:
  assumes "run_inv a p st" "Run_step a st = Some st'"
  shows "run_inv a p st'"
proof (cases "pc st")
  case At_Notify
  with assms show ?thesis
    by (clarsimp simp: run_inv_unfold Run_step_def)
next
  case At_Listen
  with assms show ?thesis
    by (clarsimp simp: run_inv_unfold Run_step_def)
next
  case At_Open
  with assms show ?thesis
    by (clarsimp simp: run_inv_unfold Run_step_def split: option.split_asm prod.split_asm)
next
  case At_Leave
  with assms show ?thesis
    by (clarsimp simp: run_inv_unfold Run_step_def split: option.split_asm if_split_asm)
next
  case At_Go
  with assms show ?thesis
    by (clarsimp simp: run_inv_unfold Run_step_def split: option.split_asm)
next
  case At_Wait
  with assms show ?thesis
    by (simp add: Run_step_def)
next
  case At_Enter
  with assms show ?thesis
    by (clarsimp simp: run_inv_unfold Run_step_def split: option.split_asm if_split_asm)
next
  case At_Record
  with assms show ?thesis
    by (clarsimp simp: run_inv_unfold Run_step_def split: option.split_asm if_split_asm)
next
  case At_Close
  with assms show ?thesis
    by (clarsimp simp: run_inv_unfold Run_step_def split: option.split_asm if_split_asm)
next
  case Returned
  with assms show ?thesis
    by (simp add: Run_step_def)
qed

lemma run_inv_listener:
  assumes "run_inv a p st" "listener_step st = Some st'"
  shows "run_inv a p st'"
proof (cases "listener st")
  case L_None
  with assms show ?thesis by (simp add: listener_step_def)
next
  case L_Recv
  with assms show ?thesis
    by (cases "pc st")
       (clarsimp simp: run_inv_unfold listener_step_def split: list.split_asm option.split_asm)+
next
  case (L_Send ev)
  with assms show ?thesis
    by (clarsimp simp: run_inv_unfold listener_step_def send_done_def split: if_split_asm option.split_asm)
next
  case L_Exit
  with assms show ?thesis by (simp add: listener_step_def)
qed

lemma run_inv_runner:
  assumes "run_inv a p st" "runner_step st = Some st'"
  shows "run_inv a p st'"
proof (cases "runner st")
  case R_None
  with assms show ?thesis by (simp add: runner_step_def)
next
  case (R_Run h as)
  show ?thesis
  proof (cases as)
    case Nil
    with R_Run assms show ?thesis
      by (clarsimp simp: run_inv_unfold runner_step_def send_done_def split: if_split_asm option.split_asm)
  next
    case (Cons x xs)
    with R_Run assms show ?thesis
      by (cases x; cases "pc st")
         (clarsimp simp: run_inv_unfold runner_step_def split: if_split_asm option.split_asm)+
  qed
next
  case R_Exit
  with assms show ?thesis by (simp add: runner_step_def)
qed

lemma run_inv_deliver:
  assumes "run_inv a p st" "deliver sg st = Some st'"
  shows "run_inv a p st'"
proof -
  from assms(2) have *: "st' = st\<lparr>sigch := sigch st @ [sg]\<rparr>" "sg \<in> set (notified st)"
    by (simp_all add: deliver_def split: if_split_asm)
  from assms(1) * show ?thesis
    by (cases "pc st") (clarsimp simp: run_inv_unfold)+
qed

lemma run_inv_step:
  assumes "run_inv a p st" "step a l st = Some st'"
  shows "run_inv a p st'"
proof (cases l)
  case (Go g)
  with assms show ?thesis
    by (cases g)
       (auto split: if_split_asm intro: run_inv_coordinator run_inv_listener run_inv_runner)
next
  case (Deliver sg)
  with assms show ?thesis
    by (auto split: if_split_asm intro: run_inv_deliver)
qed

lemma run_inv_next: "run_inv a p st \<Longrightarrow> run_inv a p (next_state a l st)"
  by (auto simp: next_state_def split: option.split intro: run_inv_step)

lemma run_inv_exec: "run_inv a p st \<Longrightarrow> run_inv a p (exec a ls st)"
  by (induction ls arbitrary: st) (simp_all add: run_inv_next)

lemma run_inv_start: "run_inv a p (Run_start p)"
  by (simp add: run_inv_def Run_start_def coord_trace_def)

lemma run_inv_reach: "run_inv a p (exec a ls (Run_start p))"
  by (simp add: run_inv_exec run_inv_start)

lemma run_inv_event:
  assumes "run_inv a p st" "got_event (open_failed a) (pc st)"
  shows "var_e st = Some interrupted \<or> var_e st = Some finished"
proof -
  from assms(1) have "var_e st =
      (if listener st = L_Exit then Some interrupted
       else if runner st = R_Exit then Some finished else None)"
    and "(listener st = L_Exit \<or> runner st = R_Exit) = got_event (open_failed a) (pc st)"
    by (simp_all add: run_inv_def)
  with assms(2) show ?thesis by auto
qed

subsection \<open>The invariant of the guard\<close>

text \<open>
  If the guard is the coordinator's at the entry of \<open>Run\<close> and the user's function
  respects it, every step keeps \<open>guard_inv\<close>.
\<close>

lemma guard_inv_coordinator:
  assumes "run_inv a p st" "guard_inv st" "respects_guard False (run a (handle a))"
    and "Run_step a st = Some st'"
  shows "guard_inv st'"
  using assms
  by (cases "pc st")
     (clarsimp simp: run_inv_def guard_inv_def Run_step_def Enter_def Leave_def
        split: option.split_asm prod.split_asm if_split_asm)+

lemma guard_inv_listener:
  assumes "guard_inv st" "listener_step st = Some st'"
  shows "guard_inv st'"
  using assms
  by (cases "listener st")
     (clarsimp simp: guard_inv_def listener_step_def send_done_def
        split: option.split_asm list.split_asm if_split_asm)+

lemma guard_inv_runner:
  assumes "run_inv a p st" "guard_inv st" "runner_step st = Some st'"
  shows "guard_inv st'"
proof (cases "runner st")
  case R_None
  with assms show ?thesis by (simp add: runner_step_def)
next
  case (R_Run h as)
  show ?thesis
  proof (cases as)
    case Nil
    with R_Run assms show ?thesis
      by (clarsimp simp: guard_inv_def runner_step_def send_done_def split: if_split_asm option.split_asm)
  next
    case (Cons x xs)
    from assms(1) R_Run have "launched (open_failed a) (pc st)"
      by (auto simp: run_inv_def)
    with Cons R_Run assms(2,3) show ?thesis
      by (cases x; cases "pc st")
         (clarsimp simp: guard_inv_def runner_step_def Enter_def Leave_def
            split: if_split_asm option.split_asm)+
  qed
next
  case R_Exit
  with assms show ?thesis by (simp add: runner_step_def)
qed

lemma guard_inv_deliver:
  assumes "guard_inv st" "deliver sg st = Some st'"
  shows "guard_inv st'"
  using assms by (clarsimp simp: guard_inv_def deliver_def split: if_split_asm)

lemma guard_inv_step:
  assumes "run_inv a p st" "guard_inv st" "respects_guard False (run a (handle a))" "step a l st = Some st'"
  shows "guard_inv st'"
proof (cases l)
  case (Go g)
  with assms show ?thesis
    by (cases g)
       (auto split: if_split_asm intro: guard_inv_coordinator guard_inv_listener guard_inv_runner)
next
  case (Deliver sg)
  with assms show ?thesis
    by (auto split: if_split_asm intro: guard_inv_deliver)
qed

lemma guard_inv_next:
  "run_inv a p st \<Longrightarrow> guard_inv st \<Longrightarrow> respects_guard False (run a (handle a)) \<Longrightarrow> guard_inv (next_state a l st)"
  by (auto simp: next_state_def split: option.split intro: guard_inv_step)

lemma guard_inv_exec:
  "run_inv a p st \<Longrightarrow> guard_inv st \<Longrightarrow> respects_guard False (run a (handle a)) \<Longrightarrow> guard_inv (exec a ls st)"
  by (induction ls arbitrary: st) (simp_all add: run_inv_next guard_inv_next)

lemma guard_inv_start: "guard p = Some Coordinator \<Longrightarrow> guard_inv (Run_start p)"
  by (simp add: guard_inv_def Run_start_def)

lemma guard_inv_reach:
  "guard p = Some Coordinator \<Longrightarrow> respects_guard False (run a (handle a)) \<Longrightarrow>
   guard_inv (exec a ls (Run_start p))"
  using guard_inv_exec [OF run_inv_start guard_inv_start] by blast

subsection \<open>Bracketed regions\<close>

lemma bracketed_follows: "bracketed held as \<Longrightarrow> respects_guard held as"
  by (induction held as rule: bracketed.induct) auto

lemma bracket_inv_coordinator:
  assumes "run_inv a p st" "guard_inv st" "bracket_inv st" "bracketed False (run a (handle a))"
    and "Run_step a st = Some st'"
  shows "bracket_inv st'"
  using assms
  by (cases "pc st")
     (clarsimp simp: run_inv_def guard_inv_def bracket_inv_def Run_step_def Enter_def Leave_def
        split: option.split_asm prod.split_asm if_split_asm)+

lemma bracket_inv_listener:
  assumes "bracket_inv st" "listener_step st = Some st'"
  shows "bracket_inv st'"
  using assms
  by (cases "listener st")
     (clarsimp simp: bracket_inv_def listener_step_def send_done_def
        split: option.split_asm list.split_asm if_split_asm)+

lemma bracket_inv_runner:
  assumes "bracket_inv st" "runner_step st = Some st'"
  shows "bracket_inv st'"
proof (cases "runner st")
  case R_None
  with assms show ?thesis by (simp add: runner_step_def)
next
  case (R_Run h as)
  show ?thesis
  proof (cases as)
    case Nil
    with R_Run assms show ?thesis
      by (clarsimp simp: bracket_inv_def runner_step_def send_done_def split: if_split_asm option.split_asm)
  next
    case (Cons x xs)
    with R_Run assms show ?thesis
      by (cases x)
         (clarsimp simp: bracket_inv_def runner_step_def Enter_def Leave_def
            split: if_split_asm option.split_asm)+
  qed
next
  case R_Exit
  with assms show ?thesis by (simp add: runner_step_def)
qed

lemma bracket_inv_deliver:
  assumes "bracket_inv st" "deliver sg st = Some st'"
  shows "bracket_inv st'"
  using assms by (clarsimp simp: bracket_inv_def deliver_def split: if_split_asm)

lemma bracket_inv_step:
  assumes "run_inv a p st" "guard_inv st" "bracket_inv st" "bracketed False (run a (handle a))"
    and "step a l st = Some st'"
  shows "bracket_inv st'"
proof (cases l)
  case (Go g)
  with assms show ?thesis
    by (cases g)
       (auto split: if_split_asm intro: bracket_inv_coordinator bracket_inv_listener bracket_inv_runner)
next
  case (Deliver sg)
  with assms show ?thesis
    by (auto split: if_split_asm intro: bracket_inv_deliver)
qed

lemma all_inv_next:
  assumes "all_inv a p st" "bracketed False (run a (handle a))"
  shows "all_inv a p (next_state a l st)"
proof (cases "step a l st")
  case None
  with assms show ?thesis by (simp add: next_state_def)
next
  case (Some st')
  from assms have i: "run_inv a p st" "guard_inv st" "bracket_inv st"
    by (simp_all add: all_inv_def)
  have "run_inv a p st'"
    using i(1) Some by (rule run_inv_step)
  moreover have "guard_inv st'"
    using i(1,2) bracketed_follows [OF assms(2)] Some by (rule guard_inv_step)
  moreover have "bracket_inv st'"
    using i assms(2) Some by (rule bracket_inv_step)
  ultimately show ?thesis
    using Some by (simp add: next_state_def all_inv_def)
qed

lemma all_inv_exec:
  "all_inv a p st \<Longrightarrow> bracketed False (run a (handle a)) \<Longrightarrow> all_inv a p (exec a ls st)"
  by (induction ls arbitrary: st) (simp_all add: all_inv_next)

lemma all_inv_start: "guard p = Some Coordinator \<Longrightarrow> all_inv a p (Run_start p)"
  by (simp add: all_inv_def run_inv_start guard_inv_start) (simp add: bracket_inv_def Run_start_def)

lemmas all_inv_unfold = all_inv_def run_inv_def guard_inv_def bracket_inv_def

subsection \<open>\<open>Run\<close> can return\<close>

text \<open>
  From every state in which the three invariants hold some schedule leads to the
  return: shown position by position, from the last one backwards. Where the
  coordinator waits for the guard or for an event, the schedule lets the runner go on,
  to the end of its region or to its end.
\<close>

lemma completes_Returned: "pc st = Returned \<Longrightarrow> completes a st"
  unfolding completes_def by (rule exI [of _ "[]"]) simp

lemma completes_step: "completes a (next_state a l st) \<Longrightarrow> completes a st"
  unfolding completes_def
proof (erule exE)
  fix more
  assume "pc (exec a more (next_state a l st)) = Returned"
  then have "pc (exec a (l # more) st) = Returned" by simp
  then show "\<exists>more. pc (exec a more st) = Returned" ..
qed

lemma completes_close:
  assumes "all_inv a p st" "pc st = At_Close"
  shows "completes a st"
proof (rule completes_step [of _ "Go Coordinator"], rule completes_Returned)
  from assms show "pc (next_state a (Go Coordinator) st) = Returned"
    by (clarsimp simp: all_inv_unfold next_state_def Run_step_def)
qed

lemma completes_record:
  assumes "all_inv a p st" "bracketed False (run a (handle a))" "pc st = At_Record"
  shows "completes a st"
proof (rule completes_step [of _ "Go Coordinator"])
  from assms have "pc (next_state a (Go Coordinator) st) = At_Close"
    by (clarsimp simp: all_inv_unfold next_state_def Run_step_def split: if_split_asm)
  with all_inv_next [OF assms(1,2)]
  show "completes a (next_state a (Go Coordinator) st)"
    by (rule completes_close)
qed

lemma completes_enter_free:
  assumes "all_inv a p st" "bracketed False (run a (handle a))" "pc st = At_Enter"
    and "guard (pal st) = None"
  shows "completes a st"
proof (rule completes_step [of _ "Go Coordinator"])
  from assms have "pc (next_state a (Go Coordinator) st) = At_Record"
    by (clarsimp simp: all_inv_unfold next_state_def Run_step_def Enter_def)
  with all_inv_next [OF assms(1,2)]
  show "completes a (next_state a (Go Coordinator) st)"
    by (rule completes_record [OF _ assms(2)])
qed

lemma guard_cases:
  assumes "all_inv a p st" "\<not> holds_guard (pc st)"
  shows "guard (pal st) = None \<or> guard (pal st) = Some Runner"
proof (cases "guard (pal st)")
  case None
  then show ?thesis by simp
next
  case (Some g)
  with assms show ?thesis
    by (cases g) (auto simp: all_inv_def guard_inv_def)
qed

lemma completes_enter_run:
  assumes "all_inv a p st" "bracketed False (run a (handle a))" "pc st = At_Enter"
    and "runner st = R_Run h as"
  shows "completes a st"
  using assms
proof (induction as arbitrary: st)
  case Nil
  then have "guard (pal st) \<noteq> Some Runner"
    by (auto simp: all_inv_def bracket_inv_def)
  with guard_cases [OF Nil(1)] Nil(3) have "guard (pal st) = None" by simp
  with Nil show ?case by (simp add: completes_enter_free)
next
  case (Cons x xs)
  show ?case
  proof (cases "guard (pal st) = None")
    case True
    with Cons.prems show ?thesis by (simp add: completes_enter_free)
  next
    case False
    with guard_cases [OF Cons.prems(1)] Cons.prems(3)
    have held: "guard (pal st) = Some Runner" by simp
    let ?st = "next_state a (Go Runner) st"
    from Cons.prems held have x: "x \<noteq> Call_Enter"
      by (auto simp: all_inv_def bracket_inv_def)
    from Cons.prems held x have "pc ?st = At_Enter \<and> runner ?st = R_Run h xs"
      by (cases x) (clarsimp simp: all_inv_def guard_inv_def next_state_def runner_step_def Leave_def)+
    with all_inv_next [OF Cons.prems(1,2)] Cons.prems(2)
    have "completes a ?st"
      by (intro Cons.IH) simp_all
    then show ?thesis by (rule completes_step)
  qed
qed

lemma completes_enter:
  assumes "all_inv a p st" "bracketed False (run a (handle a))" "pc st = At_Enter"
  shows "completes a st"
proof (cases "runner st")
  case R_None
  with assms show ?thesis by (simp add: all_inv_def run_inv_def)
next
  case (R_Run h as)
  with assms show ?thesis by (rule completes_enter_run)
next
  case R_Exit
  with assms(1) have "guard (pal st) \<noteq> Some Runner"
    by (simp add: all_inv_def bracket_inv_def)
  with guard_cases [OF assms(1)] assms(3) have "guard (pal st) = None" by simp
  with assms show ?thesis by (rule completes_enter_free)
qed

lemma completes_wait_run:
  assumes "all_inv a p st" "bracketed False (run a (handle a))" "pc st = At_Wait"
    and "runner st = R_Run h as"
  shows "completes a st"
  using assms
proof (induction as arbitrary: st)
  case Nil
  let ?st = "next_state a (Go Runner) st"
  from Nil have "pc ?st = At_Enter"
    by (clarsimp simp: all_inv_def guard_inv_def next_state_def runner_step_def send_done_def)
  with all_inv_next [OF Nil(1,2)] Nil(2) have "completes a ?st"
    by (intro completes_enter) simp_all
  then show ?case by (rule completes_step)
next
  case (Cons x xs)
  let ?st = "next_state a (Go Runner) st"
  from guard_cases [OF Cons.prems(1)] Cons.prems(3)
  have g: "guard (pal st) = None \<or> guard (pal st) = Some Runner" by simp
  from Cons.prems have b: "bracketed (guard (pal st) = Some Runner) (x # xs)"
    by (simp add: all_inv_def bracket_inv_def)
  from Cons.prems g b have "pc ?st = At_Wait \<and> runner ?st = R_Run h xs"
    by (cases x)
       (auto simp: all_inv_def guard_inv_def next_state_def runner_step_def Enter_def Leave_def)
  with all_inv_next [OF Cons.prems(1,2)] Cons.prems(2)
  have "completes a ?st"
    by (intro Cons.IH) simp_all
  then show ?case by (rule completes_step)
qed

lemma completes_wait:
  assumes "all_inv a p st" "bracketed False (run a (handle a))" "pc st = At_Wait"
  shows "completes a st"
proof (cases "runner st")
  case R_None
  with assms show ?thesis by (simp add: all_inv_def run_inv_def)
next
  case (R_Run h as)
  with assms show ?thesis by (rule completes_wait_run)
next
  case R_Exit
  with assms show ?thesis by (simp add: all_inv_def run_inv_def)
qed

lemma completes_go:
  assumes "all_inv a p st" "bracketed False (run a (handle a))" "pc st = At_Go"
  shows "completes a st"
proof (rule completes_step [of _ "Go Coordinator"])
  from assms have "pc (next_state a (Go Coordinator) st) = At_Wait"
    by (clarsimp simp: all_inv_unfold next_state_def Run_step_def)
  with all_inv_next [OF assms(1,2)]
  show "completes a (next_state a (Go Coordinator) st)"
    by (rule completes_wait [OF _ assms(2)])
qed

lemma completes_leave:
  assumes "all_inv a p st" "bracketed False (run a (handle a))" "pc st = At_Leave"
  shows "completes a st"
proof (rule completes_step [of _ "Go Coordinator"])
  from assms have "pc (next_state a (Go Coordinator) st) = At_Go"
    by (clarsimp simp: all_inv_unfold next_state_def Run_step_def Leave_def)
  with all_inv_next [OF assms(1,2)]
  show "completes a (next_state a (Go Coordinator) st)"
    by (rule completes_go [OF _ assms(2)])
qed

lemma completes_open:
  assumes "all_inv a p st" "bracketed False (run a (handle a))" "pc st = At_Open"
  shows "completes a st"
proof (rule completes_step [of _ "Go Coordinator"])
  let ?st = "next_state a (Go Coordinator) st"
  from assms have "pc ?st = At_Leave \<or> pc ?st = Returned"
    by (clarsimp simp: all_inv_unfold next_state_def Run_step_def
          split: prod.split option.split)
  with all_inv_next [OF assms(1,2)]
  show "completes a ?st"
    by (auto intro: completes_leave [OF _ assms(2)] completes_Returned)
qed

lemma completes_listen:
  assumes "all_inv a p st" "bracketed False (run a (handle a))" "pc st = At_Listen"
  shows "completes a st"
proof (rule completes_step [of _ "Go Coordinator"])
  from assms have "pc (next_state a (Go Coordinator) st) = At_Open"
    by (clarsimp simp: all_inv_unfold next_state_def Run_step_def)
  with all_inv_next [OF assms(1,2)]
  show "completes a (next_state a (Go Coordinator) st)"
    by (rule completes_open [OF _ assms(2)])
qed

lemma completes_notify:
  assumes "all_inv a p st" "bracketed False (run a (handle a))" "pc st = At_Notify"
  shows "completes a st"
proof (rule completes_step [of _ "Go Coordinator"])
  from assms have "pc (next_state a (Go Coordinator) st) = At_Listen"
    by (clarsimp simp: all_inv_unfold next_state_def Run_step_def)
  with all_inv_next [OF assms(1,2)]
  show "completes a (next_state a (Go Coordinator) st)"
    by (rule completes_listen [OF _ assms(2)])
qed

lemma completes_any:
  assumes "all_inv a p st" "bracketed False (run a (handle a))"
  shows "completes a st"
  using assms
  by (cases "pc st")
     (auto intro: completes_notify completes_listen completes_open completes_leave
        completes_go completes_wait completes_enter completes_record completes_close
        completes_Returned)

lemma exec_append: "exec a (xs @ ys) st = exec a ys (exec a xs st)"
  by (induction xs arbitrary: st) simp_all

lemma Run_can_return:
  assumes "guard p = Some Coordinator" "bracketed False (run a (handle a))"
  shows "\<exists>more. pc (exec a (sched @ more) (Run_start p)) = Returned"
proof -
  have "all_inv a p (exec a sched (Run_start p))"
    using all_inv_start [OF assms(1)] assms(2) by (rule all_inv_exec)
  then have "completes a (exec a sched (Run_start p))"
    using assms(2) by (rule completes_any)
  then show ?thesis
    by (simp add: completes_def exec_append)
qed

subsection \<open>What a trace holds\<close>

text \<open>
  The calls of the closer, the starts of the runner, the events received and the
  assignments of \<open>Signal\<close> are the coordinator's, so the invariant of \<open>Run\<close> tells them
  all.
\<close>

lemma filter_coord:
  assumes "\<And>x. P x \<Longrightarrow> \<not> is_runner_obs x"
  shows "filter P xs = filter P (coord_trace xs)"
proof -
  have "(\<lambda>x. \<not> is_runner_obs x \<and> P x) = P"
    using assms by auto
  then show ?thesis by (simp add: coord_trace_def)
qed

lemma Closed_not_runner: "is_Closed x \<Longrightarrow> \<not> is_runner_obs x"
  by (cases x) simp_all

lemma Started_not_runner: "is_Started x \<Longrightarrow> \<not> is_runner_obs x"
  by (cases x) simp_all

lemma Received_not_runner: "is_Received x \<Longrightarrow> \<not> is_runner_obs x"
  by (cases x) simp_all

lemma Recorded_not_runner: "is_Recorded x \<Longrightarrow> \<not> is_runner_obs x"
  by (cases x) simp_all

lemma closes_expected:
  "filter is_Closed (expected_trace a evo c) =
     (if c = Returned \<and> \<not> open_failed a then [Closed (handle a) (closr a (handle a))] else [])"
  by (cases c) (auto simp: receive_of_def record_of_def split: option.split)

lemma starts_expected:
  "filter is_Started (expected_trace a evo c) =
     (if launched (open_failed a) c then [Started (handle a)] else [])"
  by (cases c) (auto simp: receive_of_def record_of_def split: option.split)

lemma receives_expected:
  "filter is_Received (expected_trace a evo c) =
     (if got_event (open_failed a) c then receive_of evo else [])"
  by (cases c) (auto simp: receive_of_def record_of_def split: option.split)

lemma records_expected:
  "filter is_Recorded (expected_trace a evo c) =
     (if c = At_Close \<or> c = Returned \<and> \<not> open_failed a then record_of evo else [])"
  by (cases c) (auto simp: receive_of_def record_of_def split: option.split)

lemma coord_trace_reach:
  "coord_trace (trace (exec a sched (Run_start p))) =
     expected_trace a (var_e (exec a sched (Run_start p))) (pc (exec a sched (Run_start p)))"
  using run_inv_reach [of a p sched] by (simp add: run_inv_def)

lemma closes_reach:
  "filter is_Closed (trace (exec a sched (Run_start p))) =
     (if pc (exec a sched (Run_start p)) = Returned \<and> \<not> open_failed a
      then [Closed (handle a) (closr a (handle a))] else [])"
proof -
  have "run_inv a p (exec a sched (Run_start p))" by (rule run_inv_reach)
  then show ?thesis
    by (simp add: filter_coord [OF Closed_not_runner] run_inv_def closes_expected)
qed

lemma starts_reach:
  "filter is_Started (trace (exec a sched (Run_start p))) =
     (if runner (exec a sched (Run_start p)) = R_None then [] else [Started (handle a)])"
proof -
  have "run_inv a p (exec a sched (Run_start p))" by (rule run_inv_reach)
  then show ?thesis
    by (simp add: filter_coord [OF Started_not_runner] run_inv_def starts_expected)
qed

lemma receives_reach:
  "filter is_Received (trace (exec a sched (Run_start p))) =
     receive_of (var_e (exec a sched (Run_start p)))"
proof -
  let ?st = "exec a sched (Run_start p)"
  have inv: "run_inv a p ?st" by (rule run_inv_reach)
  then have "filter is_Received (trace ?st) =
      (if got_event (open_failed a) (pc ?st) then receive_of (var_e ?st) else [])"
    by (simp add: filter_coord [OF Received_not_runner] run_inv_def receives_expected)
  moreover from inv have "\<not> got_event (open_failed a) (pc ?st) \<longrightarrow> var_e ?st = None"
    by (auto simp: run_inv_def)
  ultimately show ?thesis by auto
qed

lemma received_reach:
  assumes "Received ev \<in> set (trace (exec a sched (Run_start p)))"
  shows "var_e (exec a sched (Run_start p)) = Some ev \<and> (ev = interrupted \<or> ev = finished)"
proof -
  let ?st = "exec a sched (Run_start p)"
  have inv: "run_inv a p ?st" by (rule run_inv_reach)
  from assms have "Received ev \<in> set (filter is_Received (trace ?st))" by simp
  also from inv have "filter is_Received (trace ?st) =
      (if got_event (open_failed a) (pc ?st) then receive_of (var_e ?st) else [])"
    by (simp add: filter_coord [OF Received_not_runner] run_inv_def receives_expected)
  finally have "var_e ?st = Some ev"
    by (cases "var_e ?st") (simp_all split: if_split_asm)
  moreover from inv have "var_e ?st = None \<or> var_e ?st = Some interrupted \<or> var_e ?st = Some finished"
    by (simp add: run_inv_def)
  ultimately show ?thesis by auto
qed

lemma records_reach:
  "filter is_Recorded (trace (exec a sched (Run_start p))) =
     (if recorded (pc (exec a sched (Run_start p))) \<and> \<not> open_failed a
      then record_of (var_e (exec a sched (Run_start p))) else [])"
proof -
  let ?st = "exec a sched (Run_start p)"
  have inv: "run_inv a p ?st" by (rule run_inv_reach)
  then have "filter is_Recorded (trace ?st) =
      (if pc ?st = At_Close \<or> pc ?st = Returned \<and> \<not> open_failed a
       then record_of (var_e ?st) else [])"
    by (simp add: filter_coord [OF Recorded_not_runner] run_inv_def records_expected)
  moreover from inv have "pc ?st = At_Close \<longrightarrow> \<not> open_failed a"
    by (simp add: run_inv_def)
  ultimately show ?thesis
    by (cases "pc ?st") simp_all
qed

lemma used_reach:
  assumes "Used h' \<in> set (trace (exec a sched (Run_start p)))"
  shows "h' = handle a"
proof -
  have "run_inv a p (exec a sched (Run_start p))" by (rule run_inv_reach)
  then have "list_all (\<lambda>x. \<forall>h. x = Used h \<longrightarrow> h = handle a) (trace (exec a sched (Run_start p)))"
    by (simp add: run_inv_def)
  with assms show ?thesis
    by (auto simp: list_all_iff)
qed

subsection \<open>After a failed acquisition\<close>

lemma Returned_stays: "pc st = Returned \<Longrightarrow> pc (next_state a l st) = Returned"
proof (cases l)
  case (Go g)
  assume "pc st = Returned"
  with Go show ?thesis
    by (cases g)
       (auto simp: next_state_def Run_step_def listener_step_def runner_step_def
          send_done_def Enter_def Leave_def
          split: option.split lpc.split rpc.split list.split act.split)
next
  case (Deliver sg)
  assume "pc st = Returned"
  with Deliver show ?thesis
    by (simp add: next_state_def deliver_def)
qed

lemma fail_countdown:
  assumes "run_inv a p st" "open_failed a"
  shows "steps_to_fail (pc (next_state a l st))
           \<le> steps_to_fail (pc st) - (if l = Go Coordinator then 1 else 0)"
proof -
  from assms have c: "pc st = At_Notify \<or> pc st = At_Listen \<or> pc st = At_Open \<or> pc st = Returned"
    by (cases "pc st") (simp_all add: run_inv_def)
  from c assms have nf: "\<not> fatal st"
    by (auto simp: run_inv_def)
  show ?thesis
  proof (cases "pc st = Returned")
    case True
    then show ?thesis by (simp add: Returned_stays)
  next
    case False
    show ?thesis
    proof (cases l)
      case (Go g)
      show ?thesis
      proof (cases g)
        case Coordinator
        with Go c False nf assms(2) show ?thesis
          by (auto simp: next_state_def Run_step_def open_failed_def
                split: prod.split option.split)
      next
        case Listener
        with Go c False nf show ?thesis
          by (auto simp: next_state_def listener_step_def send_done_def
                split: lpc.split list.split)
      next
        case Runner
        with Go c False nf show ?thesis
          by (auto simp: next_state_def runner_step_def send_done_def Enter_def Leave_def
                split: rpc.split list.split act.split)
      qed
    next
      case (Deliver sg)
      then show ?thesis
        by (simp add: next_state_def deliver_def)
    qed
  qed
qed

lemma fail_fast:
  assumes "run_inv a p st" "open_failed a"
    and "steps_to_fail (pc st) \<le> count_list ls (Go Coordinator)"
  shows "pc (exec a ls st) = Returned"
  using assms
proof (induction ls arbitrary: st)
  case Nil
  then show ?case
    by (cases "pc st") (simp_all add: run_inv_def)
next
  case (Cons l ls)
  have "steps_to_fail (pc (next_state a l st)) \<le> count_list ls (Go Coordinator)"
    using fail_countdown [OF Cons.prems(1,2), of l] Cons.prems(3)
    by (simp split: if_split_asm)
  with run_inv_next [OF Cons.prems(1)] Cons.prems(2)
  show ?case by (simp add: Cons.IH)
qed

subsection \<open>The recorded signal\<close>

lemma Signal_reach:
  assumes "Signal p = None \<or> Signal p = Some os_Interrupt"
  shows "Signal (pal (exec a sched (Run_start p))) = None \<or>
         Signal (pal (exec a sched (Run_start p))) = Some os_Interrupt"
proof -
  let ?st = "exec a sched (Run_start p)"
  have inv: "run_inv a p ?st" by (rule run_inv_reach)
  then have "var_e ?st = None \<or> var_e ?st = Some interrupted \<or> var_e ?st = Some finished"
    by (simp add: run_inv_def)
  moreover from inv have "Signal (pal ?st) = (if recorded (pc ?st) then signal_of p (var_e ?st) else Signal p)"
    by (simp add: run_inv_def)
  ultimately show ?thesis
    using assms by auto
qed

lemma Signal_Runs:
  assumes "Signal p = None \<or> Signal p = Some os_Interrupt"
  shows "Signal (Runs p rs) = None \<or> Signal (Runs p rs) = Some os_Interrupt"
  using assms
proof (induction rs arbitrary: p)
  case Nil
  then show ?case by simp
next
  case (Cons r rs)
  obtain a sched where r: "r = (a, sched)" by (cases r)
  from Signal_reach [OF Cons.prems, of a sched] Cons.IH [of "pal (exec a sched (Run_start p))"]
  show ?case
    by (simp add: r Run_def Let_def)
qed

subsection \<open>Before the closer is called\<close>

text \<open>
  A step adds at most one entry to the trace, and the closer's only from the position
  before its call, where the guard is the coordinator's.
\<close>

lemma step_trace:
  assumes "step a l st = Some st'"
  shows "trace st' = trace st \<or>
         (\<exists>x. trace st' = trace st @ [x] \<and> (is_Closed x \<longrightarrow> pc st = At_Close))"
proof (cases l)
  case (Go g)
  show ?thesis
  proof (cases g)
    case Coordinator
    with Go assms show ?thesis
      by (cases "pc st")
         (auto simp: Run_step_def split: if_split_asm option.split_asm prod.split_asm)
  next
    case Listener
    with Go assms show ?thesis
      by (cases "listener st")
         (auto simp: listener_step_def send_done_def
            split: if_split_asm option.split_asm list.split_asm)
  next
    case Runner
    with Go assms show ?thesis
      by (cases "runner st")
         (auto simp: runner_step_def send_done_def
            split: if_split_asm option.split_asm list.split_asm act.split_asm)
  qed
next
  case (Deliver sg)
  with assms show ?thesis
    by (auto simp: deliver_def split: if_split_asm)
qed

lemma trace_next: "\<exists>xs. trace (next_state a l st) = trace st @ xs"
proof (cases "step a l st")
  case None
  then show ?thesis by (simp add: next_state_def)
next
  case (Some st')
  with step_trace [OF Some] show ?thesis
    by (auto simp: next_state_def)
qed

lemma trace_exec: "\<exists>xs. trace (exec a ls st) = trace st @ xs"
proof (induction ls arbitrary: st)
  case Nil
  then show ?case by simp
next
  case (Cons l ls)
  from trace_next [of a l st] obtain xs where "trace (next_state a l st) = trace st @ xs" ..
  moreover from Cons [of "next_state a l st"] obtain ys
    where "trace (exec a ls (next_state a l st)) = trace (next_state a l st) @ ys" ..
  ultimately show ?case by simp
qed

lemma trace_kept:
  assumes "x \<in> set (trace (exec a sched (Run_start p)))"
  shows "x \<in> set (trace (exec a (sched @ rest) (Run_start p)))"
proof -
  from trace_exec [of a rest "exec a sched (Run_start p)"] obtain xs
    where "trace (exec a rest (exec a sched (Run_start p)))
      = trace (exec a sched (Run_start p)) @ xs" ..
  with assms show ?thesis
    by (simp add: exec_append)
qed

lemma close_inv_step:
  assumes "guard_inv st" "close_inv st" "step a l st = Some st'"
  shows "close_inv st'"
  unfolding close_inv_def
proof (intro allI impI)
  fix pre h r post
  assume t: "trace st' = pre @ Closed h r # post"
  from step_trace [OF assms(3)] show "open_regions pre = 0"
  proof
    assume "trace st' = trace st"
    with t assms(2) show ?thesis by (auto simp: close_inv_def)
  next
    assume "\<exists>x. trace st' = trace st @ [x] \<and> (is_Closed x \<longrightarrow> pc st = At_Close)"
    then obtain x where x: "trace st' = trace st @ [x]" "is_Closed x \<longrightarrow> pc st = At_Close"
      by blast
    show ?thesis
    proof (cases post rule: rev_cases)
      case Nil
      with t x have "pre = trace st" "pc st = At_Close" by auto
      with assms(1) show ?thesis
        by (auto simp: guard_inv_def split: if_split_asm)
    next
      case (snoc ys y)
      with t x have "trace st = pre @ Closed h r # ys" by simp
      with assms(2) show ?thesis by (auto simp: close_inv_def)
    qed
  qed
qed

lemma close_inv_exec:
  assumes "run_inv a p st" "guard_inv st" "close_inv st"
    and "respects_guard False (run a (handle a))"
  shows "close_inv (exec a ls st)"
  using assms
proof (induction ls arbitrary: st)
  case Nil
  then show ?case by simp
next
  case (Cons l ls)
  have "close_inv (next_state a l st)"
    using Cons.prems(2,3) by (auto simp: next_state_def split: option.split intro: close_inv_step)
  with Cons.prems show ?case
    by (simp add: Cons.IH run_inv_next guard_inv_next)
qed

lemma close_inv_reach:
  assumes "guard p = Some Coordinator" "respects_guard False (run a (handle a))"
  shows "close_inv (exec a ls (Run_start p))"
proof -
  have "close_inv (Run_start p)"
    by (simp add: close_inv_def Run_start_def)
  with run_inv_start guard_inv_start [OF assms(1)] show ?thesis
    using assms(2) by (rule close_inv_exec)
qed

lemma unique_last:
  assumes "xs @ c # ys = zs @ [d]" "c \<notin> set zs"
  shows "ys = [] \<and> xs = zs \<and> c = d"
proof (cases ys rule: rev_cases)
  case Nil
  with assms(1) show ?thesis by simp
next
  case (snoc ys' y)
  with assms(1) have "zs = xs @ c # ys'" by simp
  with assms(2) show ?thesis by simp
qed

lemma coord_before_close:
  assumes "trace (exec a sched (Run_start p)) = pre @ Closed h r # post"
  shows "openr a () = (h, None) \<and>
         (\<exists>ev. var_e (exec a sched (Run_start p)) = Some ev \<and>
               coord_trace pre =
                 [Opened h None, Unlocked Coordinator, Started h, Received ev, Locked Coordinator]
                   @ (if e_os ev then [Recorded (e_s ev)] else []))"
proof -
  define st where "st = exec a sched (Run_start p)"
  have inv: "run_inv a p st"
    unfolding st_def by (rule run_inv_reach)
  have t: "trace st = pre @ Closed h r # post"
    unfolding st_def by (rule assms)
  have c: "filter is_Closed (trace st) =
      (if pc st = Returned \<and> \<not> open_failed a
       then [Closed (handle a) (closr a (handle a))] else [])"
    unfolding st_def by (rule closes_reach)
  have "filter is_Closed (trace st) \<noteq> []"
    unfolding t by simp
  with c have r: "pc st = Returned" "\<not> open_failed a"
    by (simp_all split: if_split_asm)
  then have "got_event (open_failed a) (pc st)" by simp
  with run_inv_event [OF inv] obtain ev where
    ev: "var_e st = Some ev" "ev = interrupted \<or> ev = finished"
    by auto
  let ?X = "[Opened (handle a) None, Unlocked Coordinator, Started (handle a), Received ev,
      Locked Coordinator] @ record_of (Some ev)"
  have "coord_trace (trace st) = expected_trace a (var_e st) (pc st)"
    unfolding st_def by (rule coord_trace_reach)
  then have "coord_trace (trace st) = ?X @ [Closed (handle a) (closr a (handle a))]"
    by (simp add: r ev(1))
  then have e: "coord_trace pre @ Closed h r # coord_trace post
      = ?X @ [Closed (handle a) (closr a (handle a))]"
    unfolding t by (simp add: coord_trace_def)
  have n: "Closed h r \<notin> set ?X"
    using ev(2) by auto
  have "coord_trace post = [] \<and> coord_trace pre = ?X \<and>
      Closed h r = Closed (handle a) (closr a (handle a))"
    using e n by (rule unique_last)
  with r(2) ev show ?thesis
    unfolding st_def [symmetric]
    by (auto simp: handle_def open_failed_def record_of_def prod_eq_iff)
qed

subsection \<open>Renaming the resources\<close>

lemma map_state_simps [simp]:
  "pal (map_state f st) = pal st" "pc (map_state f st) = pc st"
  "var_c (map_state f st) = map_option f (var_c st)" "var_e (map_state f st) = var_e st"
  "var_err (map_state f st) = var_err st" "listener (map_state f st) = listener st"
  "runner (map_state f st) = map_rpc f (runner st)" "notified (map_state f st) = notified st"
  "sigch (map_state f st) = sigch st" "fatal (map_state f st) = fatal st"
  "trace (map_state f st) = map (map_obs f) (trace st)"
  by (simp_all add: map_state_def)

lemma map_state_send:
  "send_done ev (map_state f st) = map_option (map_state f) (send_done ev st)"
  by (simp add: send_done_def map_state_def)

lemma map_state_Run_step:
  assumes "same_callbacks f a b"
  shows "Run_step b (map_state f st) = map_option (map_state f) (Run_step a st)"
proof (cases "pc st")
  case At_Open
  obtain h r where o: "openr a () = (h, r)" by (cases "openr a ()")
  with assms have "openr b () = (f h, r)"
    by (simp add: same_callbacks_def)
  with o At_Open show ?thesis
    by (cases r) (simp_all add: Run_step_def map_state_def)
next
  case At_Go
  with assms show ?thesis
    by (cases "var_c st") (simp_all add: Run_step_def map_state_def same_callbacks_def)
next
  case At_Close
  with assms show ?thesis
    by (cases "var_c st") (simp_all add: Run_step_def map_state_def same_callbacks_def)
next
  case At_Leave
  then show ?thesis
    by (simp add: Run_step_def map_state_def Leave_def)
next
  case At_Enter
  then show ?thesis
    by (simp add: Run_step_def map_state_def Enter_def)
next
  case At_Record
  then show ?thesis
    by (cases "var_e st") (simp_all add: Run_step_def map_state_def)
qed (simp_all add: Run_step_def map_state_def)

lemma map_state_listener_step:
  "listener_step (map_state f st) = map_option (map_state f) (listener_step st)"
proof (cases "listener st")
  case L_Recv
  then show ?thesis
    by (cases "sigch st") (simp_all add: listener_step_def map_state_def)
next
  case (L_Send ev)
  then show ?thesis
    by (cases "pc st = At_Wait") (simp_all add: listener_step_def send_done_def map_state_def)
qed (simp_all add: listener_step_def)

lemma map_state_runner_step:
  "runner_step (map_state f st) = map_option (map_state f) (runner_step st)"
proof (cases "runner st")
  case (R_Run h as)
  show ?thesis
  proof (cases as)
    case Nil
    with R_Run show ?thesis
      by (cases "pc st = At_Wait") (simp_all add: runner_step_def send_done_def map_state_def)
  next
    case (Cons x xs)
    with R_Run show ?thesis
      by (cases x) (simp_all add: runner_step_def map_state_def Enter_def Leave_def)
  qed
qed (simp_all add: runner_step_def)

lemma map_state_deliver:
  "deliver sg (map_state f st) = map_option (map_state f) (deliver sg st)"
  by (simp add: deliver_def map_state_def)

lemma map_state_step:
  assumes "same_callbacks f a b"
  shows "step b l (map_state f st) = map_option (map_state f) (step a l st)"
proof (cases l)
  case (Go g)
  with assms show ?thesis
    by (cases g)
       (simp_all add: map_state_Run_step map_state_listener_step map_state_runner_step)
next
  case (Deliver sg)
  then show ?thesis by (simp add: map_state_deliver)
qed

lemma map_state_next:
  assumes "same_callbacks f a b"
  shows "next_state b l (map_state f st) = map_state f (next_state a l st)"
  unfolding next_state_def map_state_step [OF assms]
  by (cases "step a l st") simp_all

lemma map_state_exec:
  assumes "same_callbacks f a b"
  shows "exec b ls (map_state f st) = map_state f (exec a ls st)"
  by (induction ls arbitrary: st) (simp_all add: map_state_next [OF assms])

lemma map_state_start: "map_state f (Run_start p) = Run_start p"
  by (simp add: map_state_def Run_start_def)

lemma renamed_exec:
  assumes "same_callbacks f a b"
  shows "exec b sched (Run_start p) = map_state f (exec a sched (Run_start p))"
  using map_state_exec [OF assms, of sched "Run_start p"] by (simp add: map_state_start)

section \<open>The properties of \<open>Run\<close>\<close>

text \<open>
  C1. When the opener succeeds, the trace of every execution of \<open>Run\<close>, under every
  schedule and with any number of signals delivered, contains no call of the closer
  before \<open>Run\<close> has returned and exactly one from then on, which is the call on the
  handle the opener gave. A runner that brackets its protected regions cannot keep
  \<open>Run\<close> from returning: every execution can be continued to the return.
\<close>

theorem closer_invoked_exactly_once:
  assumes "openr a () = (h, None)" and "st = exec a sched (Run_start p)"
  shows "filter is_Closed (trace st) = (if pc st = Returned then [Closed h (closr a h)] else []) \<and>
         (guard p = Some Coordinator \<and> bracketed False (run a h) \<longrightarrow>
            (\<exists>more. pc (exec a (sched @ more) (Run_start p)) = Returned))"
proof
  from assms(1) have h: "handle a = h" "\<not> open_failed a"
    by (simp_all add: handle_def open_failed_def)
  with assms(2) show "filter is_Closed (trace st) =
      (if pc st = Returned then [Closed h (closr a h)] else [])"
    by (simp add: closes_reach)
  from h show "guard p = Some Coordinator \<and> bracketed False (run a h) \<longrightarrow>
      (\<exists>more. pc (exec a (sched @ more) (Run_start p)) = Returned)"
    using Run_can_return [of p a sched] by simp
qed

theorem closer_invoked_exactly_once_witness:
  "openr demo_args () = (7, None) \<and>
   pc (exec demo_args demo_interrupted (Run_start New)) = Returned \<and>
   guard New = Some Coordinator \<and> bracketed False (run demo_args 7) \<and>
   filter is_Closed (trace (exec demo_args demo_interrupted (Run_start New))) = [Closed 7 None] \<and>
   (\<exists>more. pc (exec demo_args (demo_interrupted @ more) (Run_start New)) = Returned)"
proof -
  have o: "openr demo_args () = (7, None)" by (simp add: demo_args_def)
  have r: "pc (exec demo_args demo_interrupted (Run_start New)) = Returned"
    by (simp add: demo_args_def demo_interrupted_def step_defs)
  have g: "guard New = Some Coordinator \<and> bracketed False (run demo_args 7)"
    by (simp add: demo_args_def New_def)
  from closer_invoked_exactly_once [OF o refl, of demo_interrupted New] o r g
  show ?thesis by (simp add: demo_args_def)
qed

text \<open>
  C2. In the trace of every execution, what comes before a call of the closer on \<open>h\<close>
  is, on the coordinator's side, exactly: the opener's successful return with \<open>h\<close>, the
  release of the guard, the start of the runner, the receipt of one event, the
  re-acquisition of the guard and, for an interruption, the assignment of \<open>Signal\<close>.
  Let moreover the guard be held by the coordinator when \<open>Run\<close> is entered, as \<open>New\<close>
  leaves it, and let the user's function call \<open>Leave\<close> only while it holds the guard.
  Then whenever the coordinator stands before the call of the closer it holds the
  guard and the runner is in no protected region, and the runner has left every
  protected region it had entered before the closer is called.
\<close>

theorem closer_after_reacquire:
  assumes "st = exec a sched (Run_start p)"
  shows "(pc st = At_Close \<longrightarrow> snd (openr a ()) = None \<and> var_e st \<noteq> None) \<and>
         (trace st = pre @ Closed h r # post \<longrightarrow>
            openr a () = (h, None) \<and>
            (\<exists>ev. coord_trace pre =
                    [Opened h None, Unlocked Coordinator, Started h, Received ev,
                     Locked Coordinator] @ (if e_os ev then [Recorded (e_s ev)] else []))) \<and>
         (guard p = Some Coordinator \<and> respects_guard False (run a (fst (openr a ()))) \<longrightarrow>
            (pc st = At_Close \<longrightarrow>
               guard (pal st) = Some Coordinator \<and> open_regions (trace st) = 0) \<and>
            (trace st = pre @ Closed h r # post \<longrightarrow> open_regions pre = 0))"
proof -
  have inv: "run_inv a p st"
    unfolding assms by (rule run_inv_reach)
  have 1: "pc st = At_Close \<longrightarrow> snd (openr a ()) = None \<and> var_e st \<noteq> None"
    using inv by (auto simp: run_inv_def open_failed_def split: if_split_asm)
  have 2: "trace st = pre @ Closed h r # post \<longrightarrow>
      openr a () = (h, None) \<and>
      (\<exists>ev. coord_trace pre =
              [Opened h None, Unlocked Coordinator, Started h, Received ev,
               Locked Coordinator] @ (if e_os ev then [Recorded (e_s ev)] else []))"
    unfolding assms using coord_before_close [of a sched p pre h r post] by blast
  have 3: "guard p = Some Coordinator \<and> respects_guard False (run a (fst (openr a ()))) \<longrightarrow>
      (pc st = At_Close \<longrightarrow>
         guard (pal st) = Some Coordinator \<and> open_regions (trace st) = 0) \<and>
      (trace st = pre @ Closed h r # post \<longrightarrow> open_regions pre = 0)"
  proof
    assume "guard p = Some Coordinator \<and> respects_guard False (run a (fst (openr a ())))"
    then have g: "guard p = Some Coordinator" and f: "respects_guard False (run a (handle a))"
      by (simp_all add: handle_def)
    have "guard_inv st"
      unfolding assms using g f by (rule guard_inv_reach)
    then have "pc st = At_Close \<longrightarrow>
        guard (pal st) = Some Coordinator \<and> open_regions (trace st) = 0"
      by (auto simp: guard_inv_def split: if_split_asm)
    moreover have "close_inv st"
      unfolding assms using g f by (rule close_inv_reach)
    then have "trace st = pre @ Closed h r # post \<longrightarrow> open_regions pre = 0"
      by (auto simp: close_inv_def)
    ultimately show "(pc st = At_Close \<longrightarrow>
        guard (pal st) = Some Coordinator \<and> open_regions (trace st) = 0) \<and>
        (trace st = pre @ Closed h r # post \<longrightarrow> open_regions pre = 0)"
      by simp
  qed
  from 1 2 3 show ?thesis by (intro conjI)
qed

theorem closer_after_reacquire_witness:
  "guard New = Some Coordinator \<and>
   respects_guard False (run demo_args (fst (openr demo_args ()))) \<and>
   pc (exec demo_args (butlast demo_interrupted) (Run_start New)) = At_Close \<and>
   guard (pal (exec demo_args (butlast demo_interrupted) (Run_start New))) = Some Coordinator \<and>
   trace (exec demo_args demo_interrupted (Run_start New)) =
     [Opened 7 None, Unlocked Coordinator, Started 7, Locked Runner,
      Received \<lparr>e_os = True, e_s = Some os_Interrupt\<rparr>, Used 7, Unlocked Runner,
      Locked Coordinator, Recorded (Some os_Interrupt)] @ Closed 7 None # [] \<and>
   open_regions
     [Opened (7::nat) None, Unlocked Coordinator, Started 7, Locked Runner,
      Received \<lparr>e_os = True, e_s = Some os_Interrupt\<rparr>, Used 7, Unlocked Runner,
      Locked Coordinator, Recorded (Some os_Interrupt)] = 0"
proof -
  let ?pre = "[Opened (7::nat) None, Unlocked Coordinator, Started 7, Locked Runner,
      Received \<lparr>e_os = True, e_s = Some os_Interrupt\<rparr>, Used 7, Unlocked Runner,
      Locked Coordinator, Recorded (Some os_Interrupt)]"
  have g: "guard New = Some Coordinator"
    by (simp add: New_def)
  have f: "respects_guard False (run demo_args (fst (openr demo_args ())))"
    by (simp add: demo_args_def)
  have 1: "pc (exec demo_args (butlast demo_interrupted) (Run_start New)) = At_Close"
    by (simp add: demo_args_def demo_interrupted_def step_defs)
  have 2: "trace (exec demo_args demo_interrupted (Run_start New)) = ?pre @ Closed 7 None # []"
    by (simp add: demo_args_def demo_interrupted_def step_defs del: event_fold)
  from closer_after_reacquire [OF refl, where a = demo_args and sched = "butlast demo_interrupted"
        and p = New and pre = ?pre and h = 7 and r = None and post = "[]"]
    closer_after_reacquire [OF refl, where a = demo_args and sched = demo_interrupted
        and p = New and pre = ?pre and h = 7 and r = None and post = "[]"]
    g f 1 2
  show ?thesis by simp
qed

text \<open>
  C3. When the opener returns an error \<open>x\<close>, then in every state of every execution the
  runner has not been started, the closer has not been called, the Paladin is as it was
  when \<open>Run\<close> was entered (so the guard is still held) and the process has not stopped;
  \<open>Run\<close> returns after the coordinator's first three steps, whatever the other
  goroutines and the operating system do, and returns a new error whose text is
  \<open>Could not open: \<close> followed by the text of \<open>x\<close>. This is the only early exit: a \<open>Run\<close>
  that has returned after a successful opener has started the runner and called the closer.
\<close>

theorem acquisition_failure:
  assumes "st = exec a sched (Run_start p)"
  shows "(openr a () = (h, Some x) \<longrightarrow>
            runner st = R_None \<and> filter is_Started (trace st) = [] \<and>
            filter is_Closed (trace st) = [] \<and> pal st = p \<and> \<not> fatal st \<and>
            (pc st = Returned \<longrightarrow>
               var_err st = Some (errors_New (''Could not open: '' @ Error x))) \<and>
            (3 \<le> count_list sched (Go Coordinator) \<longrightarrow> pc st = Returned)) \<and>
         (pc st = Returned \<and> snd (openr a ()) = None \<longrightarrow>
            filter is_Started (trace st) \<noteq> [] \<and> filter is_Closed (trace st) \<noteq> [])"
proof (intro conjI impI)
  have inv: "run_inv a p st"
    unfolding assms by (rule run_inv_reach)
  {
    assume o: "openr a () = (h, Some x)"
    then have f: "open_failed a" by (simp add: open_failed_def)
    from inv f have c: "untouched (open_failed a) (pc st)"
      by (cases "pc st") (simp_all add: run_inv_def)
    from inv f c show "runner st = R_None"
      by (cases "pc st") (simp_all add: run_inv_def)
    then show "filter is_Started (trace st) = []"
      unfolding assms by (simp add: starts_reach)
    from f show "filter is_Closed (trace st) = []"
      unfolding assms by (simp add: closes_reach)
    from inv c show "pal st = p" "\<not> fatal st"
      by (simp_all add: run_inv_def)
    {
      assume "pc st = Returned"
      with inv o show "var_err st = Some (errors_New (''Could not open: '' @ Error x))"
        by (simp add: run_inv_def result_def)
    }
    {
      assume "3 \<le> count_list sched (Go Coordinator)"
      then have "steps_to_fail (pc (Run_start p)) \<le> count_list sched (Go Coordinator)"
        by (simp add: Run_start_def)
      with run_inv_start f show "pc st = Returned"
        unfolding assms by (rule fail_fast)
    }
  }
  {
    assume r: "pc st = Returned \<and> snd (openr a ()) = None"
    with inv have "runner st \<noteq> R_None"
      by (simp add: run_inv_def open_failed_def)
    then show "filter is_Started (trace st) \<noteq> []"
      unfolding assms by (simp add: starts_reach)
    from r show "filter is_Closed (trace st) \<noteq> []"
      unfolding assms by (simp add: closes_reach open_failed_def)
  }
qed

theorem acquisition_failure_witness:
  "openr failing_args () = (0, Some (otherError 2 ''no such file'')) \<and>
   3 \<le> count_list [Go Coordinator, Deliver os_Interrupt, Go Coordinator, Go Listener, Go Coordinator]
         (Go Coordinator) \<and>
   pc (exec failing_args
         [Go Coordinator, Deliver os_Interrupt, Go Coordinator, Go Listener, Go Coordinator]
         (Run_start New)) = Returned \<and>
   var_err (exec failing_args
         [Go Coordinator, Deliver os_Interrupt, Go Coordinator, Go Listener, Go Coordinator]
         (Run_start New)) = Some (errorString ''Could not open: no such file'') \<and>
   guard (pal (exec failing_args
         [Go Coordinator, Deliver os_Interrupt, Go Coordinator, Go Listener, Go Coordinator]
         (Run_start New))) = Some Coordinator \<and>
   pc (exec demo_args demo_interrupted (Run_start New)) = Returned \<and>
   snd (openr demo_args ()) = None \<and>
   filter is_Closed (trace (exec demo_args demo_interrupted (Run_start New))) \<noteq> []"
proof -
  let ?s = "[Go Coordinator, Deliver os_Interrupt, Go Coordinator, Go Listener, Go Coordinator]"
  have o: "openr failing_args () = (0, Some (otherError 2 ''no such file''))"
    by (simp add: failing_args_def)
  have n: "3 \<le> count_list ?s (Go Coordinator)" by simp
  have r: "pc (exec demo_args demo_interrupted (Run_start New)) = Returned \<and>
      snd (openr demo_args ()) = None"
    by (simp add: demo_args_def demo_interrupted_def step_defs)
  from acquisition_failure [OF refl, of failing_args 0 "otherError 2 ''no such file''" ?s New]
    acquisition_failure [OF refl, of demo_args 0 "otherError 2 ''no such file''" demo_interrupted New]
    o n r
  show ?thesis
    by (simp add: errors_New_def New_def)
qed

text \<open>
  C4. \<open>New\<close> returns a Paladin whose guard the coordinator holds. In every execution
  of \<open>Run\<close> the guard is as it was at the entry as long as the opener has not returned,
  and for good if the opener fails. Let the guard be held by the coordinator when
  \<open>Run\<close> is entered and let the user's function call \<open>Leave\<close> only while it holds the
  guard. Then in every state of every execution the coordinator holds the guard
  exactly when it does not stand at line 131, 139 or 142, that is from the entry of
  \<open>Run\<close> until its own \<open>Leave\<close> has returned and from the return of its own \<open>Enter\<close> on,
  in particular in every state after \<open>Run\<close> has returned on either path; and no fatal
  unlock happens.
\<close>

theorem guard_held_outside_window:
  assumes "st = exec a sched (Run_start p)"
  shows "guard New = Some Coordinator \<and>
         (pc st = At_Notify \<or> pc st = At_Listen \<or> pc st = At_Open \<or> snd (openr a ()) \<noteq> None \<longrightarrow>
            guard (pal st) = guard p) \<and>
         (guard p = Some Coordinator \<and> respects_guard False (run a (fst (openr a ()))) \<longrightarrow>
            (guard (pal st) = Some Coordinator)
              = (pc st \<noteq> At_Go \<and> pc st \<noteq> At_Wait \<and> pc st \<noteq> At_Enter) \<and>
            (pc st = Returned \<longrightarrow> guard (pal st) = Some Coordinator) \<and>
            \<not> fatal st)"
proof (intro conjI)
  show "guard New = Some Coordinator"
    by (simp add: New_def)
  have inv: "run_inv a p st"
    unfolding assms by (rule run_inv_reach)
  then have u: "untouched (open_failed a) (pc st) \<longrightarrow> pal st = p"
    and o: "after_open (pc st) \<and> pc st \<noteq> Returned \<longrightarrow> \<not> open_failed a"
    by (simp_all add: run_inv_def)
  show "pc st = At_Notify \<or> pc st = At_Listen \<or> pc st = At_Open \<or> snd (openr a ()) \<noteq> None \<longrightarrow>
      guard (pal st) = guard p"
    using u o by (cases "pc st") (auto simp: open_failed_def)
  show "guard p = Some Coordinator \<and> respects_guard False (run a (fst (openr a ()))) \<longrightarrow>
      (guard (pal st) = Some Coordinator)
        = (pc st \<noteq> At_Go \<and> pc st \<noteq> At_Wait \<and> pc st \<noteq> At_Enter) \<and>
      (pc st = Returned \<longrightarrow> guard (pal st) = Some Coordinator) \<and>
      \<not> fatal st"
  proof
    assume "guard p = Some Coordinator \<and> respects_guard False (run a (fst (openr a ())))"
    then have "guard p = Some Coordinator" "respects_guard False (run a (handle a))"
      by (simp_all add: handle_def)
    then have "guard_inv st"
      unfolding assms by (rule guard_inv_reach)
    then show "(guard (pal st) = Some Coordinator)
          = (pc st \<noteq> At_Go \<and> pc st \<noteq> At_Wait \<and> pc st \<noteq> At_Enter) \<and>
        (pc st = Returned \<longrightarrow> guard (pal st) = Some Coordinator) \<and>
        \<not> fatal st"
      by (cases "pc st") (simp_all add: guard_inv_def)
  qed
qed

theorem guard_held_outside_window_witness:
  "guard New = Some Coordinator \<and>
   respects_guard False (run demo_args (fst (openr demo_args ()))) \<and>
   snd (openr failing_args ()) \<noteq> None \<and>
   pc (exec demo_args demo_interrupted (Run_start New)) = Returned \<and>
   guard (pal (exec demo_args demo_interrupted (Run_start New))) = Some Coordinator \<and>
   pc (exec failing_args [Go Coordinator, Go Coordinator, Go Coordinator] (Run_start New))
     = Returned \<and>
   guard (pal (exec failing_args [Go Coordinator, Go Coordinator, Go Coordinator] (Run_start New)))
     = Some Coordinator \<and>
   pc (exec demo_args (take 7 demo_interrupted) (Run_start New)) = At_Wait \<and>
   guard (pal (exec demo_args (take 7 demo_interrupted) (Run_start New))) \<noteq> Some Coordinator"
proof -
  have g: "guard New = Some Coordinator"
    by (simp add: New_def)
  have f: "respects_guard False (run demo_args (fst (openr demo_args ())))"
    "snd (openr failing_args ()) \<noteq> None"
    by (simp_all add: demo_args_def failing_args_def)
  have 1: "pc (exec demo_args demo_interrupted (Run_start New)) = Returned"
    "pc (exec demo_args (take 7 demo_interrupted) (Run_start New)) = At_Wait"
    by (simp_all add: demo_args_def demo_interrupted_def step_defs)
  have 2: "pc (exec failing_args [Go Coordinator, Go Coordinator, Go Coordinator] (Run_start New))
      = Returned"
    by (simp add: failing_args_def step_defs)
  from guard_held_outside_window [OF refl, of demo_args demo_interrupted New]
    guard_held_outside_window [OF refl, of demo_args "take 7 demo_interrupted" New]
    guard_held_outside_window [OF refl, of failing_args
      "[Go Coordinator, Go Coordinator, Go Coordinator]" New]
    g f 1 2
  show ?thesis by simp
qed

text \<open>
  C5. Let the coordinator have received the event \<open>ev\<close>. Once \<open>Run\<close> has returned: if
  \<open>ev\<close> is an interruption, \<open>Signal\<close> holds its signal and the trace shows the one
  assignment; if \<open>ev\<close> is the runner's completion, \<open>Run\<close> has not assigned \<open>Signal\<close>, and the
  field holds what it held when \<open>Run\<close> was entered, which is nil on a Paladin that \<open>New\<close>
  has just made. And if the guard is the coordinator's at the entry and the user's
  function brackets its protected regions, the execution can be continued to that
  return.
\<close>

theorem Signal_after_Run:
  assumes "st = exec a sched (Run_start p)" and "Received ev \<in> set (trace st)"
  shows "(pc st = Returned \<longrightarrow>
            (e_os ev \<longrightarrow>
               Signal (pal st) = e_s ev \<and> e_s ev \<noteq> None \<and>
               filter is_Recorded (trace st) = [Recorded (e_s ev)]) \<and>
            (\<not> e_os ev \<longrightarrow>
               Signal (pal st) = Signal p \<and> filter is_Recorded (trace st) = [])) \<and>
         Signal New = None \<and>
         (guard p = Some Coordinator \<and> bracketed False (run a (fst (openr a ()))) \<longrightarrow>
            (\<exists>more. pc (exec a (sched @ more) (Run_start p)) = Returned \<and>
                    Signal (pal (exec a (sched @ more) (Run_start p)))
                      = (if e_os ev then e_s ev else Signal p)))"
proof -
  have *: "(e_os ev \<longrightarrow>
        Signal (pal (exec a s (Run_start p))) = e_s ev \<and> e_s ev \<noteq> None \<and>
        filter is_Recorded (trace (exec a s (Run_start p))) = [Recorded (e_s ev)]) \<and>
      (\<not> e_os ev \<longrightarrow>
        Signal (pal (exec a s (Run_start p))) = Signal p \<and>
        filter is_Recorded (trace (exec a s (Run_start p))) = [])"
    if r: "pc (exec a s (Run_start p)) = Returned"
      and t: "Received ev \<in> set (trace (exec a s (Run_start p)))" for s
  proof -
    let ?st = "exec a s (Run_start p)"
    have inv: "run_inv a p ?st"
      by (rule run_inv_reach)
    from t have e: "var_e ?st = Some ev" "ev = interrupted \<or> ev = finished"
      using received_reach by blast+
    from inv r e have f: "\<not> open_failed a"
      by (auto simp: run_inv_def)
    from inv r have s: "Signal (pal ?st) = signal_of p (var_e ?st)"
      by (simp add: run_inv_def)
    from f r have "filter is_Recorded (trace ?st) = record_of (var_e ?st)"
      by (simp add: records_reach)
    with e s show ?thesis
      by auto
  qed
  have 1: "pc st = Returned \<longrightarrow>
      (e_os ev \<longrightarrow>
         Signal (pal st) = e_s ev \<and> e_s ev \<noteq> None \<and>
         filter is_Recorded (trace st) = [Recorded (e_s ev)]) \<and>
      (\<not> e_os ev \<longrightarrow>
         Signal (pal st) = Signal p \<and> filter is_Recorded (trace st) = [])"
    using * [of sched] assms by simp
  have 2: "Signal New = None"
    by (simp add: New_def)
  have 3: "guard p = Some Coordinator \<and> bracketed False (run a (fst (openr a ()))) \<longrightarrow>
      (\<exists>more. pc (exec a (sched @ more) (Run_start p)) = Returned \<and>
              Signal (pal (exec a (sched @ more) (Run_start p)))
                = (if e_os ev then e_s ev else Signal p))"
  proof
    assume "guard p = Some Coordinator \<and> bracketed False (run a (fst (openr a ())))"
    then have "\<exists>more. pc (exec a (sched @ more) (Run_start p)) = Returned"
      using Run_can_return [of p a sched] by (simp add: handle_def)
    then obtain more where r: "pc (exec a (sched @ more) (Run_start p)) = Returned" ..
    from assms have "Received ev \<in> set (trace (exec a (sched @ more) (Run_start p)))"
      by (simp add: trace_kept)
    with * [OF r] have "Signal (pal (exec a (sched @ more) (Run_start p)))
        = (if e_os ev then e_s ev else Signal p)"
      by simp
    with r show "\<exists>more. pc (exec a (sched @ more) (Run_start p)) = Returned \<and>
        Signal (pal (exec a (sched @ more) (Run_start p)))
          = (if e_os ev then e_s ev else Signal p)"
      by blast
  qed
  from 1 2 3 show ?thesis by (intro conjI)
qed

theorem Signal_after_Run_witness:
  "pc (exec demo_args demo_interrupted (Run_start New)) = Returned \<and>
   Received \<lparr>e_os = True, e_s = Some os_Interrupt\<rparr>
     \<in> set (trace (exec demo_args demo_interrupted (Run_start New))) \<and>
   Signal (pal (exec demo_args demo_interrupted (Run_start New))) = Some os_Interrupt \<and>
   pc (exec demo_args demo_finished (Run_start (New\<lparr>Signal := Some os_Interrupt\<rparr>))) = Returned \<and>
   Received \<lparr>e_os = False, e_s = None\<rparr>
     \<in> set (trace (exec demo_args demo_finished (Run_start (New\<lparr>Signal := Some os_Interrupt\<rparr>)))) \<and>
   Signal (pal (exec demo_args demo_finished (Run_start (New\<lparr>Signal := Some os_Interrupt\<rparr>))))
     = Some os_Interrupt \<and>
   pc (exec demo_args demo_finished (Run_start New)) = Returned \<and>
   Signal (pal (exec demo_args demo_finished (Run_start New))) = None \<and>
   guard New = Some Coordinator \<and> bracketed False (run demo_args (fst (openr demo_args ()))) \<and>
   Received \<lparr>e_os = True, e_s = Some os_Interrupt\<rparr>
     \<in> set (trace (exec demo_args (take 10 demo_interrupted) (Run_start New))) \<and>
   (\<exists>more. pc (exec demo_args (take 10 demo_interrupted @ more) (Run_start New)) = Returned \<and>
           Signal (pal (exec demo_args (take 10 demo_interrupted @ more) (Run_start New)))
             = Some os_Interrupt)"
proof -
  let ?i = "\<lparr>e_os = True, e_s = Some os_Interrupt\<rparr>"
  let ?f = "\<lparr>e_os = False, e_s = None\<rparr>"
  let ?p = "New\<lparr>Signal := Some os_Interrupt\<rparr>"
  have 1: "Received ?i \<in> set (trace (exec demo_args demo_interrupted (Run_start New)))"
    "pc (exec demo_args demo_interrupted (Run_start New)) = Returned"
    by (simp_all add: demo_args_def demo_interrupted_def step_defs del: event_fold)
  have 2: "Received ?f \<in> set (trace (exec demo_args demo_finished (Run_start ?p)))"
    "pc (exec demo_args demo_finished (Run_start ?p)) = Returned"
    by (simp_all add: demo_args_def demo_finished_def step_defs del: event_fold)
  have 3: "Received ?f \<in> set (trace (exec demo_args demo_finished (Run_start New)))"
    "pc (exec demo_args demo_finished (Run_start New)) = Returned"
    by (simp_all add: demo_args_def demo_finished_def step_defs del: event_fold)
  have 4: "Received ?i \<in> set (trace (exec demo_args (take 10 demo_interrupted) (Run_start New)))"
    by (simp add: demo_args_def demo_interrupted_def step_defs del: event_fold)
  have g: "guard New = Some Coordinator \<and> bracketed False (run demo_args (fst (openr demo_args ())))"
    by (simp add: New_def demo_args_def)
  from Signal_after_Run [OF refl 1(1)] Signal_after_Run [OF refl 2(1)]
    Signal_after_Run [OF refl 3(1)] Signal_after_Run [OF refl 4] 1 2 3 4 g
  show ?thesis by (simp add: New_def)
qed

text \<open>
  C6. When \<open>Run\<close> returns, under any schedule, it returns the acquisition error if the
  opener failed and otherwise exactly what the closer returned; so with an opener and a
  closer that both succeed it returns nil, whether or not an interruption was received.
  And it does return that value: if the guard is the coordinator's at the entry and the
  user's function brackets its protected regions, every execution can be continued to
  the return.
\<close>

theorem Run_result:
  "(Run p a sched = Some (p', r) \<longrightarrow>
      r = (case openr a () of
             (h, Some x) \<Rightarrow> Some (errors_New (''Could not open: '' @ Error x))
           | (h, None) \<Rightarrow> closr a h) \<and>
      (openr a () = (h, None) \<and> closr a h = None \<longrightarrow> r = None)) \<and>
   (guard p = Some Coordinator \<and> bracketed False (run a (fst (openr a ()))) \<longrightarrow>
      (\<exists>more q. Run p a (sched @ more) =
         Some (q, case openr a () of
                    (h, Some x) \<Rightarrow> Some (errors_New (''Could not open: '' @ Error x))
                  | (h, None) \<Rightarrow> closr a h)))"
proof (intro conjI impI)
  have res: "result a =
      (case openr a () of
         (h, Some x) \<Rightarrow> Some (errors_New (''Could not open: '' @ Error x))
       | (h, None) \<Rightarrow> closr a h)"
    by (simp add: result_def handle_def split: prod.split option.split)
  have ret: "var_err (exec a s (Run_start p)) = result a"
    if "pc (exec a s (Run_start p)) = Returned" for s
    using run_inv_reach [of a p s] that by (simp add: run_inv_def)
  {
    assume "Run p a sched = Some (p', r)"
    then have "pc (exec a sched (Run_start p)) = Returned" "r = var_err (exec a sched (Run_start p))"
      by (simp_all add: Run_def Let_def split: if_split_asm)
    then have r: "r = result a"
      by (simp add: ret)
    then show "r = (case openr a () of
        (h, Some x) \<Rightarrow> Some (errors_New (''Could not open: '' @ Error x))
      | (h, None) \<Rightarrow> closr a h)"
      by (simp add: res)
    assume "openr a () = (h, None) \<and> closr a h = None"
    with r show "r = None"
      by (simp add: res)
  }
  {
    assume "guard p = Some Coordinator \<and> bracketed False (run a (fst (openr a ())))"
    then have "\<exists>more. pc (exec a (sched @ more) (Run_start p)) = Returned"
      using Run_can_return [of p a sched] by (simp add: handle_def)
    then obtain more where "pc (exec a (sched @ more) (Run_start p)) = Returned" ..
    then have "Run p a (sched @ more) = Some (pal (exec a (sched @ more) (Run_start p)), result a)"
      by (simp add: Run_def Let_def ret)
    then show "\<exists>more q. Run p a (sched @ more) =
        Some (q, case openr a () of
                   (h, Some x) \<Rightarrow> Some (errors_New (''Could not open: '' @ Error x))
                 | (h, None) \<Rightarrow> closr a h)"
      unfolding res by blast
  }
qed

theorem Run_result_witness:
  "Run New demo_args demo_interrupted
     = Some (\<lparr>Signal = Some os_Interrupt, guard = Some Coordinator\<rparr>, None) \<and>
   openr demo_args () = (7, None) \<and> closr demo_args 7 = None \<and>
   guard New = Some Coordinator \<and> bracketed False (run demo_args (fst (openr demo_args ()))) \<and>
   Run New failing_args [Go Coordinator, Go Coordinator, Go Coordinator]
     = Some (New, Some (errorString ''Could not open: no such file'')) \<and>
   (\<exists>more q. Run New demo_args (take 7 demo_interrupted @ more) = Some (q, None))"
proof -
  have 1: "\<exists>r. Run New demo_args demo_interrupted
      = Some (\<lparr>Signal = Some os_Interrupt, guard = Some Coordinator\<rparr>, r)"
    by (simp add: Run_def demo_args_def demo_interrupted_def step_defs)
  have 2: "\<exists>r. Run New failing_args [Go Coordinator, Go Coordinator, Go Coordinator] = Some (New, r)"
    by (simp add: Run_def failing_args_def step_defs)
  have o: "openr demo_args () = (7, None) \<and> closr demo_args 7 = None"
    "openr failing_args () = (0, Some (otherError 2 ''no such file''))"
    by (simp_all add: demo_args_def failing_args_def)
  have g: "guard New = Some Coordinator \<and> bracketed False (run demo_args (fst (openr demo_args ())))"
    by (simp add: New_def demo_args_def)
  from 1 obtain r1 where r1: "Run New demo_args demo_interrupted
      = Some (\<lparr>Signal = Some os_Interrupt, guard = Some Coordinator\<rparr>, r1)" ..
  from 2 obtain r2 where r2: "Run New failing_args [Go Coordinator, Go Coordinator, Go Coordinator]
      = Some (New, r2)" ..
  from Run_result [of New demo_args demo_interrupted _ r1 7]
    Run_result [of New failing_args "[Go Coordinator, Go Coordinator, Go Coordinator]" New r2 0]
    Run_result [of New demo_args "take 7 demo_interrupted"]
    o g r1 r2
  show ?thesis by (simp add: errors_New_def)
qed

text \<open>
  C7. Let an interruption \<open>ev\<close> have been received and let the closer return the error
  \<open>x\<close>. In every state in which the coordinator stands before the call of the closer,
  \<open>Signal\<close> already holds the signal of \<open>ev\<close> and the closer has not been called; the
  coordinator's next step (in a process that has not stopped) is the return of \<open>Run\<close> with
  \<open>x\<close>, and leaves \<open>Signal\<close> as it is. In every state after the return the result is \<open>x\<close>,
  \<open>Signal\<close> holds the signal of \<open>ev\<close>, and the coordinator's part of the trace shows the
  assignment of \<open>Signal\<close> before the call of the closer. And \<open>Run\<close> does return so: if
  the guard is the coordinator's at the entry and the user's function brackets its
  protected regions, the execution can be continued to that return.
\<close>

theorem closer_failure_keeps_Signal:
  assumes "st = exec a sched (Run_start p)" and "Received ev \<in> set (trace st)" and "e_os ev"
    and "openr a () = (h, None)" and "closr a h = Some x"
  shows "(pc st = At_Close \<longrightarrow>
            Signal (pal st) = e_s ev \<and> filter is_Closed (trace st) = [] \<and>
            (\<not> fatal st \<longrightarrow>
               pc (next_state a (Go Coordinator) st) = Returned \<and>
               var_err (next_state a (Go Coordinator) st) = Some x \<and>
               Signal (pal (next_state a (Go Coordinator) st)) = e_s ev)) \<and>
         (pc st = Returned \<longrightarrow>
            var_err st = Some x \<and> Signal (pal st) = e_s ev \<and>
            coord_trace (trace st) =
              [Opened h None, Unlocked Coordinator, Started h, Received ev, Locked Coordinator,
               Recorded (e_s ev), Closed h (Some x)]) \<and>
         (guard p = Some Coordinator \<and> bracketed False (run a h) \<longrightarrow>
            (\<exists>more. pc (exec a (sched @ more) (Run_start p)) = Returned \<and>
                    var_err (exec a (sched @ more) (Run_start p)) = Some x \<and>
                    Signal (pal (exec a (sched @ more) (Run_start p))) = e_s ev))"
proof -
  from assms(4) have h: "handle a = h" "\<not> open_failed a"
    by (simp_all add: handle_def open_failed_def)
  have ev: "var_e (exec a s (Run_start p)) = Some interrupted \<and> ev = interrupted"
    if "Received ev \<in> set (trace (exec a s (Run_start p)))" for s
    using received_reach [OF that] assms(3) by auto
  have *: "var_err (exec a s (Run_start p)) = Some x \<and>
      Signal (pal (exec a s (Run_start p))) = e_s ev \<and>
      coord_trace (trace (exec a s (Run_start p))) =
        [Opened h None, Unlocked Coordinator, Started h, Received ev, Locked Coordinator,
         Recorded (e_s ev), Closed h (Some x)]"
    if r: "pc (exec a s (Run_start p)) = Returned"
      and t: "Received ev \<in> set (trace (exec a s (Run_start p)))" for s
    using run_inv_reach [of a p s] ev [OF t] h r assms(4,5) coord_trace_reach [of a s p]
    by (clarsimp simp: run_inv_def result_def)
  have inv: "run_inv a p st"
    unfolding assms(1) by (rule run_inv_reach)
  from assms(1,2) have e: "var_e st = Some interrupted" "ev = interrupted"
    using ev [of sched] by simp_all
  have c: "filter is_Closed (trace st) =
      (if pc st = Returned \<and> \<not> open_failed a then [Closed (handle a) (closr a (handle a))] else [])"
    unfolding assms(1) by (rule closes_reach)
  have 1: "pc st = At_Close \<longrightarrow>
      Signal (pal st) = e_s ev \<and> filter is_Closed (trace st) = [] \<and>
      (\<not> fatal st \<longrightarrow>
         pc (next_state a (Go Coordinator) st) = Returned \<and>
         var_err (next_state a (Go Coordinator) st) = Some x \<and>
         Signal (pal (next_state a (Go Coordinator) st)) = e_s ev)"
    using inv e h c assms(5)
    by (clarsimp simp: run_inv_def next_state_def Run_step_def)
  have 2: "pc st = Returned \<longrightarrow>
      var_err st = Some x \<and> Signal (pal st) = e_s ev \<and>
      coord_trace (trace st) =
        [Opened h None, Unlocked Coordinator, Started h, Received ev, Locked Coordinator,
         Recorded (e_s ev), Closed h (Some x)]"
    using * [of sched] assms(1,2) by simp
  have 3: "guard p = Some Coordinator \<and> bracketed False (run a h) \<longrightarrow>
      (\<exists>more. pc (exec a (sched @ more) (Run_start p)) = Returned \<and>
              var_err (exec a (sched @ more) (Run_start p)) = Some x \<and>
              Signal (pal (exec a (sched @ more) (Run_start p))) = e_s ev)"
  proof
    assume "guard p = Some Coordinator \<and> bracketed False (run a h)"
    then have "\<exists>more. pc (exec a (sched @ more) (Run_start p)) = Returned"
      using Run_can_return [of p a sched] h by simp
    then obtain more where r: "pc (exec a (sched @ more) (Run_start p)) = Returned" ..
    from assms(1,2) have "Received ev \<in> set (trace (exec a (sched @ more) (Run_start p)))"
      by (simp add: trace_kept)
    with * [OF r] r show "\<exists>more. pc (exec a (sched @ more) (Run_start p)) = Returned \<and>
        var_err (exec a (sched @ more) (Run_start p)) = Some x \<and>
        Signal (pal (exec a (sched @ more) (Run_start p))) = e_s ev"
      by blast
  qed
  from 1 2 3 show ?thesis by (intro conjI)
qed

theorem closer_failure_keeps_Signal_witness:
  "Received \<lparr>e_os = True, e_s = Some os_Interrupt\<rparr>
     \<in> set (trace (exec failing_closer demo_interrupted (Run_start New))) \<and>
   openr failing_closer () = (7, None) \<and>
   closr failing_closer 7 = Some (otherError 5 ''disk full'') \<and>
   guard New = Some Coordinator \<and> bracketed False (run failing_closer 7) \<and>
   pc (exec failing_closer demo_interrupted (Run_start New)) = Returned \<and>
   var_err (exec failing_closer demo_interrupted (Run_start New))
     = Some (otherError 5 ''disk full'') \<and>
   Signal (pal (exec failing_closer demo_interrupted (Run_start New))) = Some os_Interrupt \<and>
   pc (exec failing_closer (butlast demo_interrupted) (Run_start New)) = At_Close \<and>
   \<not> fatal (exec failing_closer (butlast demo_interrupted) (Run_start New)) \<and>
   Signal (pal (exec failing_closer (butlast demo_interrupted) (Run_start New)))
     = Some os_Interrupt"
proof -
  let ?i = "\<lparr>e_os = True, e_s = Some os_Interrupt\<rparr>"
  have 1: "Received ?i \<in> set (trace (exec failing_closer demo_interrupted (Run_start New)))"
    "pc (exec failing_closer demo_interrupted (Run_start New)) = Returned"
    by (simp_all add: failing_closer_def demo_interrupted_def step_defs del: event_fold)
  have 2: "Received ?i \<in> set (trace (exec failing_closer (butlast demo_interrupted) (Run_start New)))"
    "pc (exec failing_closer (butlast demo_interrupted) (Run_start New)) = At_Close"
    "\<not> fatal (exec failing_closer (butlast demo_interrupted) (Run_start New))"
    by (simp_all add: failing_closer_def demo_interrupted_def step_defs del: event_fold)
  have o: "openr failing_closer () = (7, None)"
    "closr failing_closer 7 = Some (otherError 5 ''disk full'')"
    by (simp_all add: failing_closer_def)
  have g: "guard New = Some Coordinator \<and> bracketed False (run failing_closer 7)"
    by (simp add: New_def failing_closer_def)
  have i: "e_os ?i" by simp
  from closer_failure_keeps_Signal [OF refl 1(1) i o] closer_failure_keeps_Signal [OF refl 2(1) i o]
    1 2 o g
  show ?thesis by simp
qed

text \<open>
  C8. In every state of every execution the coordinator has received at most one event.
  Once it has received one it never stands at the receive of line 139 again, so no
  second event is awaited. The two senders never both complete their send: the
  listener has completed it only if the received event is the interruption, the runner
  only if it is the completion, and the other one stays blocked at \<open>done <- e\<close>. When
  \<open>Run\<close> has returned after a successful opener, exactly one event \<open>ev\<close> has been
  received, and \<open>Signal\<close> is what \<open>ev\<close> alone decides.
\<close>

theorem one_event_decides:
  assumes "st = exec a sched (Run_start p)"
  shows "length (filter is_Received (trace st)) \<le> 1 \<and>
         (filter is_Received (trace st) \<noteq> [] \<longrightarrow> pc st \<noteq> At_Wait) \<and>
         \<not> (listener st = L_Exit \<and> runner st = R_Exit) \<and>
         (listener st = L_Exit \<longrightarrow>
            filter is_Received (trace st) = [Received \<lparr>e_os = True, e_s = Some os_Interrupt\<rparr>]) \<and>
         (runner st = R_Exit \<longrightarrow>
            filter is_Received (trace st) = [Received \<lparr>e_os = False, e_s = None\<rparr>]) \<and>
         (pc st = Returned \<and> snd (openr a ()) = None \<longrightarrow>
            (\<exists>ev. filter is_Received (trace st) = [Received ev] \<and> var_e st = Some ev \<and>
                  Signal (pal st) = (if e_os ev then e_s ev else Signal p)))"
proof -
  have inv: "run_inv a p st"
    unfolding assms by (rule run_inv_reach)
  have r: "filter is_Received (trace st) = receive_of (var_e st)"
    unfolding assms by (rule receives_reach)
  have 1: "length (filter is_Received (trace st)) \<le> 1"
    unfolding r by (cases "var_e st") simp_all
  have 2: "filter is_Received (trace st) \<noteq> [] \<longrightarrow> pc st \<noteq> At_Wait"
    unfolding r using inv by (cases "var_e st") (auto simp: run_inv_def)
  have 3: "\<not> (listener st = L_Exit \<and> runner st = R_Exit)"
    using inv by (simp add: run_inv_def)
  have 4: "listener st = L_Exit \<longrightarrow>
      filter is_Received (trace st) = [Received \<lparr>e_os = True, e_s = Some os_Interrupt\<rparr>]"
    unfolding r using inv by (simp add: run_inv_def)
  have 5: "runner st = R_Exit \<longrightarrow>
      filter is_Received (trace st) = [Received \<lparr>e_os = False, e_s = None\<rparr>]"
    unfolding r using inv by (auto simp: run_inv_def)
  have 6: "pc st = Returned \<and> snd (openr a ()) = None \<longrightarrow>
      (\<exists>ev. filter is_Received (trace st) = [Received ev] \<and> var_e st = Some ev \<and>
            Signal (pal st) = (if e_os ev then e_s ev else Signal p))"
  proof
    assume a: "pc st = Returned \<and> snd (openr a ()) = None"
    with inv have "var_e st = Some interrupted \<or> var_e st = Some finished"
      by (auto simp: run_inv_def open_failed_def split: if_split_asm)
    moreover from inv a have "Signal (pal st) = signal_of p (var_e st)"
      by (simp add: run_inv_def)
    ultimately show "\<exists>ev. filter is_Received (trace st) = [Received ev] \<and> var_e st = Some ev \<and>
        Signal (pal st) = (if e_os ev then e_s ev else Signal p)"
      unfolding r by auto
  qed
  from 1 2 3 4 5 6 show ?thesis by blast
qed

theorem one_event_decides_witness:
  "filter is_Received (trace (exec demo_args demo_signals (Run_start New)))
     = [Received \<lparr>e_os = True, e_s = Some os_Interrupt\<rparr>] \<and>
   listener (exec demo_args demo_signals (Run_start New)) = L_Exit \<and>
   runner (exec demo_args demo_signals (Run_start New)) = R_Run 7 [] \<and>
   pc (exec demo_args demo_signals (Run_start New)) = Returned \<and>
   snd (openr demo_args ()) = None \<and>
   Signal (pal (exec demo_args demo_signals (Run_start New))) = Some os_Interrupt \<and>
   runner (exec demo_args demo_finished (Run_start New)) = R_Exit \<and>
   filter is_Received (trace (exec demo_args demo_finished (Run_start New)))
     = [Received \<lparr>e_os = False, e_s = None\<rparr>]"
proof -
  have 1: "listener (exec demo_args demo_signals (Run_start New)) = L_Exit"
    "runner (exec demo_args demo_signals (Run_start New)) = R_Run 7 []"
    "pc (exec demo_args demo_signals (Run_start New)) = Returned"
    "Signal (pal (exec demo_args demo_signals (Run_start New))) = Some os_Interrupt"
    by (simp_all add: demo_args_def demo_signals_def step_defs)
  have 2: "runner (exec demo_args demo_finished (Run_start New)) = R_Exit"
    by (simp add: demo_args_def demo_finished_def step_defs)
  have 3: "snd (openr demo_args ()) = None"
    by (simp add: demo_args_def)
  from one_event_decides [OF refl, of demo_args demo_signals New]
    one_event_decides [OF refl, of demo_args demo_finished New] 1 2 3
  show ?thesis by (simp del: event_fold)
qed

text \<open>
  C9. When the opener succeeds with the handle \<open>h\<close>, then in every state of every
  execution the variable \<open>c\<close> holds \<open>h\<close> from the opener's return on, the runner is started
  at most once and with \<open>h\<close>, every use the runner makes of its argument is a use of \<open>h\<close>,
  and the closer is called, once \<open>Run\<close> returns, on \<open>h\<close>. The coordinator does not look
  into the handle: with the resources renamed by any function \<open>f\<close>, and callbacks that
  do on the renamed resources what the given ones do on the original ones, the
  execution under the same schedule is the renamed execution, state by state.
\<close>

theorem handle_passed_through:
  assumes "openr a () = (h, None)" and "st = exec a sched (Run_start p)"
  shows "(after_open (pc st) \<longrightarrow> var_c st = Some h) \<and>
         filter is_Started (trace st) = (if runner st = R_None then [] else [Started h]) \<and>
         (\<forall>h' as. runner st = R_Run h' as \<longrightarrow> h' = h) \<and>
         (\<forall>h'. Used h' \<in> set (trace st) \<longrightarrow> h' = h) \<and>
         filter is_Closed (trace st) = (if pc st = Returned then [Closed h (closr a h)] else []) \<and>
         (same_callbacks f a b \<longrightarrow> exec b sched (Run_start p) = map_state f st)"
proof -
  from assms(1) have h: "handle a = h" "\<not> open_failed a"
    by (simp_all add: handle_def open_failed_def)
  have inv: "run_inv a p st"
    unfolding assms(2) by (rule run_inv_reach)
  from inv h have "after_open (pc st) \<longrightarrow> var_c st = Some h"
    by (simp add: run_inv_def)
  moreover from h have "filter is_Started (trace st) = (if runner st = R_None then [] else [Started h])"
    unfolding assms(2) by (simp add: starts_reach)
  moreover from inv h have "\<forall>h' as. runner st = R_Run h' as \<longrightarrow> h' = h"
    by (simp add: run_inv_def)
  moreover from h have "\<forall>h'. Used h' \<in> set (trace st) \<longrightarrow> h' = h"
    unfolding assms(2) using used_reach [of _ a sched p] by blast
  moreover from h have "filter is_Closed (trace st) =
      (if pc st = Returned then [Closed h (closr a h)] else [])"
    unfolding assms(2) by (simp add: closes_reach)
  moreover have "same_callbacks f a b \<longrightarrow> exec b sched (Run_start p) = map_state f st"
    unfolding assms(2) by (simp add: renamed_exec)
  ultimately show ?thesis by simp
qed

theorem handle_passed_through_witness:
  "openr demo_args () = (7, None) \<and>
   after_open (pc (exec demo_args demo_interrupted (Run_start New))) \<and>
   var_c (exec demo_args demo_interrupted (Run_start New)) = Some 7 \<and>
   runner (exec demo_args demo_interrupted (Run_start New)) = R_Run 7 [] \<and>
   Used 7 \<in> set (trace (exec demo_args demo_interrupted (Run_start New))) \<and>
   filter is_Started (trace (exec demo_args demo_interrupted (Run_start New))) = [Started 7] \<and>
   filter is_Closed (trace (exec demo_args demo_interrupted (Run_start New))) = [Closed 7 None] \<and>
   same_callbacks (\<lambda>n. n = 7) demo_args
     \<lparr>openr = (\<lambda>_. (True, None)), closr = (\<lambda>h. None),
      run = (\<lambda>h. [Call_Enter, Use_Resource, Call_Leave])\<rparr> \<and>
   exec \<lparr>openr = (\<lambda>_. (True, None)), closr = (\<lambda>h. None),
      run = (\<lambda>h. [Call_Enter, Use_Resource, Call_Leave])\<rparr> demo_interrupted (Run_start New)
     = map_state (\<lambda>n. n = 7) (exec demo_args demo_interrupted (Run_start New))"
proof -
  let ?b = "\<lparr>openr = (\<lambda>_. (True, None)), closr = (\<lambda>h. None),
      run = (\<lambda>h. [Call_Enter, Use_Resource, Call_Leave])\<rparr> :: bool args"
  have o: "openr demo_args () = (7, None)" by (simp add: demo_args_def)
  have n: "closr demo_args 7 = None" by (simp add: demo_args_def)
  have s: "pc (exec demo_args demo_interrupted (Run_start New)) = Returned \<and>
      runner (exec demo_args demo_interrupted (Run_start New)) = R_Run 7 [] \<and>
      Used 7 \<in> set (trace (exec demo_args demo_interrupted (Run_start New)))"
    by (simp add: demo_args_def demo_interrupted_def step_defs)
  have c: "same_callbacks (\<lambda>n. n = 7) demo_args ?b"
    by (simp add: same_callbacks_def demo_args_def)
  from handle_passed_through [OF o refl, of demo_interrupted New "\<lambda>n. n = 7" ?b] o n s c
  show ?thesis by simp
qed

text \<open>
  C10. The channel \<open>sig\<close> is subscribed to \<open>os.Interrupt\<close> alone, so whatever signals the
  operating system delivers, on a Paladin made by \<open>New\<close> the field \<open>Signal\<close> is nil or
  \<open>os.Interrupt\<close> after any number of calls of \<open>Run\<close>, and in every state of a further
  call.
\<close>

theorem Signal_nil_or_Interrupt:
  "(Signal (Runs New rs) = None \<or> Signal (Runs New rs) = Some os_Interrupt) \<and>
   (Signal (pal (exec a sched (Run_start (Runs New rs)))) = None \<or>
    Signal (pal (exec a sched (Run_start (Runs New rs)))) = Some os_Interrupt)"
proof -
  have "Signal New = None \<or> Signal New = Some os_Interrupt"
    by (simp add: New_def)
  then have "Signal (Runs New rs) = None \<or> Signal (Runs New rs) = Some os_Interrupt"
    by (rule Signal_Runs)
  then show ?thesis
    using Signal_reach by blast
qed

theorem Signal_nil_or_Interrupt_witness:
  "Signal (Runs New [(demo_args, demo_signals), (demo_args, demo_finished)]) = Some os_Interrupt \<and>
   Signal (pal (exec demo_args demo_signals
     (Run_start (Runs New [(demo_args, demo_signals), (demo_args, demo_finished)]))))
     = Some os_Interrupt"
proof -
  let ?rs = "[(demo_args, demo_signals), (demo_args, demo_finished)]"
  have 1: "Runs New ?rs = \<lparr>Signal = Some os_Interrupt, guard = Some Coordinator\<rparr>"
    by (simp add: Run_def demo_args_def demo_signals_def demo_finished_def step_defs Let_def)
  have 2: "Signal (pal (exec demo_args demo_signals
      (Run_start \<lparr>Signal = Some os_Interrupt, guard = Some Coordinator\<rparr>))) \<noteq> None"
    by (simp add: demo_args_def demo_signals_def step_defs)
  from Signal_nil_or_Interrupt [of ?rs demo_args demo_signals] 2
  show ?thesis unfolding 1 by auto
qed

end
